theory Spec2Isabelle
  imports Complex_Main
begin

section \<open>Random fractals in 2D: the branch-growth engine\<close>

text \<open>
  A shallow embedding of \<^verbatim>\<open>pygame_2d_random_fractals.pyw\<close>: the classes
  \<^verbatim>\<open>Tree\<close> and \<^verbatim>\<open>Branch\<close> and the function \<^verbatim>\<open>generate_tree\<close>.

  Conventions of the embedding.
  \<^item> Python numbers (ints and floats alike) are real numbers, and \<open>+\<close>, \<open>-\<close>, \<open>*\<close>,
    \<^verbatim>\<open>math.cos\<close> and \<^verbatim>\<open>math.sin\<close> are exact. Two effects of double precision are
    modelled where they decide a claim: a power that exceeds the range of a double
    raises \<^verbatim>\<open>OverflowError\<close> (\<open>py_pow\<close>), and the rounding of the two size products of
    \<^verbatim>\<open>branch_split\<close> is given separately (\<open>double_sizes\<close>).
  \<^item> The ambient generator behind \<^verbatim>\<open>random.gauss\<close> is a sequence \<open>zs\<close> of standard
    normal variates together with the number \<open>gauss_calls\<close> of variates taken so far;
    \<^verbatim>\<open>random.gauss(mu, sigma)\<close> returns \<open>mu + z * sigma\<close> for the next variate
    \<open>z\<close>, as the library does.
  \<^item> The pygame surface is the list of the line-drawing calls made on it, oldest first.
  \<^item> An exception is a value of type \<open>error\<close>; every function that may raise returns
    \<open>error option\<close> (\<open>None\<close>: returned normally) together with the state reached.
\<close>

subsection \<open>Settings\<close>

definition DISPLAY_RESOLUTION :: "nat \<times> nat" where
  "DISPLAY_RESOLUTION = (768, 432)"

definition MAX_BRANCH_COUNT :: nat where
  "MAX_BRANCH_COUNT = 1000000"

definition MINIMUM_BRANCH_SIZE :: real where
  "MINIMUM_BRANCH_SIZE = 3 / 10000"

text \<open>The eight numbers of a preset, in the order of the list \<^verbatim>\<open>presets\<close>; they are the
  fields of the same names of a \<^verbatim>\<open>Tree\<close>, which never change after construction.\<close>

record preset =
  branch_width :: real
  branch_width_factor :: real
  branch_length_mean :: real
  branch_length_range :: real
  branch_length_factor :: real
  branch_angle_mean :: real
  branch_angle_range :: real
  branch_angle_factor :: real

definition presets :: preset where
  "presets = \<lparr> branch_width = 3, branch_width_factor = 3 / 10,
     branch_length_mean = 15, branch_length_range = 5, branch_length_factor = 3 / 10,
     branch_angle_mean = pi / 6, branch_angle_range = pi / 8, branch_angle_factor = 0 \<rparr>"

subsection \<open>Data\<close>

datatype error =
  IndexError | AttributeError | ZeroDivisionError | OverflowError | ValueError | TypeError

type_synonym point = "real \<times> real"

record branch =
  index :: nat
  pos :: point
  branch_size :: real
  branch_length :: real
  branch_direction :: real

text \<open>One call of \<^verbatim>\<open>pygame.draw.line(surface, color, pos1, pos2, width)\<close>.\<close>

record line =
  line_color :: "real \<times> real \<times> real"
  line_start :: point
  line_end :: point
  line_width :: int

text \<open>The mutable state: the list \<^verbatim>\<open>Tree.branches\<close> (a slot holds a branch or
  \<^verbatim>\<open>None\<close>), the surface, and the number of variates taken from the generator.\<close>

record state =
  branches :: "branch option list"
  surface :: "line list"
  gauss_calls :: nat

subsection \<open>Library functions\<close>

text \<open>\<^verbatim>\<open>random.gauss(mu, sigma)\<close>.\<close>

definition gauss :: "(nat \<Rightarrow> real) \<Rightarrow> real \<Rightarrow> real \<Rightarrow> state \<Rightarrow> real \<times> state" where
  "gauss zs mu sigma st =
     (mu + zs (gauss_calls st) * sigma, st\<lparr>gauss_calls := Suc (gauss_calls st)\<rparr>)"

text \<open>\<^verbatim>\<open>int(x)\<close> on a float: truncation towards zero.\<close>

definition py_int :: "real \<Rightarrow> int" where
  "py_int x = (if 0 \<le> x then \<lfloor>x\<rfloor> else \<lceil>x\<rceil>)"

text \<open>The least magnitude that rounds to an infinity in double precision: half an ulp
  above the largest finite double \<open>2^1024 - 2^971\<close>.\<close>

definition double_overflow :: real where
  "double_overflow = 2 ^ 1024 - 2 ^ 970"

text \<open>\<^verbatim>\<open>x ** y\<close>. Zero to a negative power raises \<^verbatim>\<open>ZeroDivisionError\<close>; a result beyond
  the range of a double raises \<^verbatim>\<open>OverflowError\<close>. A negative base with a fractional
  exponent gives a complex number in Python, which every later use in this program (the
  comparison \<^verbatim>\<open>width < 1\<close>, \<^verbatim>\<open>math.cos\<close>, the drawing call) rejects with \<^verbatim>\<open>TypeError\<close>;
  the model raises it at the power. No branch has a negative size, so this case is not
  reached from \<^verbatim>\<open>generate_tree\<close>.\<close>

definition py_pow :: "real \<Rightarrow> real \<Rightarrow> error + real" where
  "py_pow x y =
     (if 0 < x then
        (if double_overflow \<le> x powr y then Inl OverflowError else Inr (x powr y))
      else if x = 0 then
        (if y < 0 then Inl ZeroDivisionError else if y = 0 then Inr 1 else Inr 0)
      else if y = of_int \<lfloor>y\<rfloor> then
        (if double_overflow \<le> \<bar>x powi \<lfloor>y\<rfloor>\<bar> then Inl OverflowError
         else Inr (x powi \<lfloor>y\<rfloor>))
      else Inl TypeError)"

text \<open>Rounding of a real number to the nearest integer, ties to the even one.\<close>

definition round_even :: "real \<Rightarrow> int" where
  "round_even y =
     (let f = \<lfloor>y\<rfloor>; r = y - of_int f
      in if r < 1 / 2 then f else if 1 / 2 < r then f + 1
         else if even f then f else f + 1)"

text \<open>The exponent of the unit in the last place of the double nearest to \<open>x\<close>: 53
  significant bits, and \<open>-1074\<close> at least (subnormal numbers).\<close>

definition double_exponent :: "real \<Rightarrow> int" where
  "double_exponent x = max (\<lfloor>log 2 \<bar>x\<bar>\<rfloor> - 52) (- 1074)"

text \<open>The result of an arithmetic operation in double precision, from its exact value:
  rounding to the nearest double, ties to even. \<open>None\<close> stands for an infinity.\<close>

definition to_double :: "real \<Rightarrow> real option" where
  "to_double x =
     (if x = 0 then Some 0
      else if double_overflow \<le> \<bar>x\<bar> then None
      else Some (of_int (round_even (x / 2 powi double_exponent x))
                  * 2 powi double_exponent x))"

subsection \<open>Class Tree\<close>

text \<open>Lines 72 to 74 of \<^verbatim>\<open>branch_split\<close>: a negative sample is folded to \<open>1 + x\<close>, then the
  value is clamped.\<close>

definition split_proportion :: "real \<Rightarrow> real" where
  "split_proportion x =
     (let proportion = (if x < 0 then 1 + x else x)
      in max (min proportion 1) 0)"

text \<open>Lines 76 and 77 of \<^verbatim>\<open>branch_split\<close> as the program computes them, in double
  precision: \<^verbatim>\<open>prev_size * proportion\<close> is one rounded product,
  \<^verbatim>\<open>prev_size * (1 - proportion)\<close> a rounded difference and then a rounded product.\<close>

definition double_sizes :: "real \<Rightarrow> real \<Rightarrow> (real \<times> real) option" where
  "double_sizes prev_size proportion =
     (case to_double (prev_size * proportion) of
        None \<Rightarrow> None
      | Some branch_1_size \<Rightarrow>
          (case to_double (1 - proportion) of
             None \<Rightarrow> None
           | Some d \<Rightarrow>
               (case to_double (prev_size * d) of
                  None \<Rightarrow> None
                | Some branch_2_size \<Rightarrow> Some (branch_1_size, branch_2_size))))"

text \<open>\<^verbatim>\<open>Tree.__init__\<close>: the list holds the seed branch, of index 0 and size 1, with a
  sampled length. Every call builds a new tree, so the list of the incoming state is
  replaced; the surface is kept.\<close>

definition Tree_init :: "(nat \<Rightarrow> real) \<Rightarrow> preset \<Rightarrow> point \<Rightarrow> real \<Rightarrow> state \<Rightarrow> state" where
  "Tree_init zs ps initial_pos initial_direction st =
     (let (len, st1) = gauss zs (branch_length_mean ps) (branch_length_range ps) st
      in st1\<lparr>branches := [Some \<lparr> index = 0, pos = initial_pos, branch_size = 1,
                               branch_length = len, branch_direction = initial_direction \<rparr>]\<rparr>)"

text \<open>\<^verbatim>\<open>Tree.branch_split\<close>. The assignment to \<^verbatim>\<open>self.branches[index]\<close> raises
  \<^verbatim>\<open>IndexError\<close> when the index is out of range; each power may raise, after the
  variates before it have been taken.\<close>

definition branch_split ::
  "(nat \<Rightarrow> real) \<Rightarrow> preset \<Rightarrow> nat \<Rightarrow> point \<Rightarrow> real \<Rightarrow> real \<Rightarrow> state \<Rightarrow> error option \<times> state" where
  "branch_split zs ps idx p prev_size prev_direction st =
     (if length (branches st) \<le> idx then (Some IndexError, st)
      else
        let st1 = st\<lparr>branches := (branches st)[idx := None]\<rparr>;
            (x, st2) = gauss zs 0 (1 / 10) st1;
            proportion = split_proportion x;
            branch_1_size = prev_size * proportion;
            branch_2_size = prev_size * (1 - proportion);
            (g1, st3) = gauss zs (branch_length_mean ps) (branch_length_range ps) st2
        in (case py_pow branch_1_size (branch_length_factor ps) of
              Inl e \<Rightarrow> (Some e, st3)
            | Inr f1 \<Rightarrow>
               (let branch_1_length = g1 * f1;
                    (g2, st4) = gauss zs (branch_length_mean ps) (branch_length_range ps) st3
                in (case py_pow branch_2_size (branch_length_factor ps) of
                      Inl e \<Rightarrow> (Some e, st4)
                    | Inr f2 \<Rightarrow>
                       (let branch_2_length = g2 * f2;
                            (ga, st5) = gauss zs (branch_angle_mean ps) (branch_angle_range ps) st4
                        in (case py_pow prev_size (branch_angle_factor ps) of
                              Inl e \<Rightarrow> (Some e, st5)
                            | Inr fa \<Rightarrow>
                               (let angle = ga * fa;
                                    branch_1_angle = prev_direction - angle * (1 - proportion);
                                    branch_2_angle = prev_direction + angle * proportion;
                                    new_branch_1 = \<lparr> index = length (branches st5), pos = p,
                                      branch_size = branch_1_size,
                                      branch_length = branch_1_length,
                                      branch_direction = branch_1_angle \<rparr>;
                                    new_branch_2 = \<lparr> index = length (branches st5) + 1, pos = p,
                                      branch_size = branch_2_size,
                                      branch_length = branch_2_length,
                                      branch_direction = branch_2_angle \<rparr>
                                in (None, st5\<lparr>branches :=
                                      (branches st5 @ [Some new_branch_1]) @ [Some new_branch_2]\<rparr>))))))))"

subsection \<open>Class Branch\<close>

text \<open>\<^verbatim>\<open>Branch.draw\<close>: a width below 1 dims the three channels and is replaced by 1.
  The colour is a triple: the only caller passes the list \<^verbatim>\<open>[255, 255, 255]\<close>. The
  function records the call of \<^verbatim>\<open>pygame.draw.line\<close> that it makes; whether pygame
  raises for that call is \<open>pygame_draw_line_raises\<close> below, applied in \<open>activate\<close>.\<close>

definition draw :: "real \<times> real \<times> real \<Rightarrow> point \<Rightarrow> point \<Rightarrow> real \<Rightarrow> state \<Rightarrow> state" where
  "draw color pos1 pos2 width st =
     (let (c0, c1, c2) = color;
          (color', width') =
             (if width < 1 then ((c0 * width, c1 * width, c2 * width), 1)
              else (color, width))
      in st\<lparr>surface := surface st @
           [\<lparr> line_color = color', line_start = pos1, line_end = pos2,
              line_width = py_int width' \<rparr>]\<rparr>)"

text \<open>What \<^verbatim>\<open>pygame.draw.line\<close> raises for the arguments of a call: the width is
  converted to a C \<^verbatim>\<open>int\<close> (\<^verbatim>\<open>OverflowError\<close> outside its range), and every colour
  channel is converted with \<^verbatim>\<open>int\<close> and has to lie between 0 and 255
  (\<^verbatim>\<open>ValueError\<close>, invalid color argument).\<close>

definition pygame_draw_line_raises :: "line \<Rightarrow> error option" where
  "pygame_draw_line_raises l =
     (let (c0, c1, c2) = line_color l
      in if line_width l < - (2 ^ 31) \<or> 2 ^ 31 \<le> line_width l then Some OverflowError
         else if py_int c0 < 0 \<or> 255 < py_int c0 \<or> py_int c1 < 0 \<or> 255 < py_int c1
                 \<or> py_int c2 < 0 \<or> 255 < py_int c2
         then Some ValueError
         else None)"

text \<open>\<^verbatim>\<open>Branch.activate\<close>. The call that \<open>draw\<close> makes is the last line of the surface it
  returns; when \<^verbatim>\<open>pygame.draw.line\<close> raises for it, the exception leaves \<^verbatim>\<open>activate\<close> and
  nothing has been drawn.\<close>

definition activate :: "(nat \<Rightarrow> real) \<Rightarrow> preset \<Rightarrow> branch \<Rightarrow> state \<Rightarrow> error option \<times> state" where
  "activate zs ps b st =
     (let dx = cos (branch_direction b) * branch_length b;
          dy = sin (branch_direction b) * branch_length b;
          final_pos = (fst (pos b) + dx, snd (pos b) + dy)
      in (case py_pow (branch_size b) (branch_width_factor ps) of
            Inl e \<Rightarrow> (Some e, st)
          | Inr f \<Rightarrow>
             (let st1 = draw (255, 255, 255) (pos b) final_pos (branch_width ps * f) st
              in (case pygame_draw_line_raises (last (surface st1)) of
                    Some e \<Rightarrow> (Some e, st)
                  | None \<Rightarrow>
                     (if branch_size b > MINIMUM_BRANCH_SIZE
                      then branch_split zs ps (index b) final_pos (branch_size b)
                             (branch_direction b) st1
                      else (None, st1))))))"

subsection \<open>generate_tree\<close>

text \<open>The body of the loop, \<^verbatim>\<open>tree.branches[i].activate()\<close>: reading the list out of
  range raises \<^verbatim>\<open>IndexError\<close>, calling \<^verbatim>\<open>activate\<close> on \<^verbatim>\<open>None\<close> raises
  \<^verbatim>\<open>AttributeError\<close>.\<close>

definition activate_slot :: "(nat \<Rightarrow> real) \<Rightarrow> preset \<Rightarrow> nat \<Rightarrow> state \<Rightarrow> error option \<times> state" where
  "activate_slot zs ps i st =
     (if length (branches st) \<le> i then (Some IndexError, st)
      else case branches st ! i of
             None \<Rightarrow> (Some AttributeError, st)
           | Some b \<Rightarrow> activate zs ps b st)"

text \<open>The loop \<^verbatim>\<open>for i in range(cap)\<close> from iteration \<open>i\<close> on. The handler catches an
  \<^verbatim>\<open>IndexError\<close> from anywhere in the body and leaves the loop; any other exception
  leaves \<^verbatim>\<open>generate_tree\<close>.\<close>

function drive :: "(nat \<Rightarrow> real) \<Rightarrow> preset \<Rightarrow> nat \<Rightarrow> nat \<Rightarrow> state \<Rightarrow> error option \<times> state" where
  "drive zs ps cap i st =
     (if i < cap then
        (case activate_slot zs ps i st of
           (None, st') \<Rightarrow> drive zs ps cap (i + 1) st'
         | (Some IndexError, st') \<Rightarrow> (None, st')
         | (Some e, st') \<Rightarrow> (Some e, st'))
      else (None, st))"
  by pat_completeness auto
termination
  by (relation "measure (\<lambda>(zs, ps, cap, i, st). cap - i)") auto

declare drive.simps [simp del]

text \<open>\<^verbatim>\<open>generate_tree\<close> with the setting \<^verbatim>\<open>MAX_BRANCH_COUNT\<close> as the parameter \<open>cap\<close>.\<close>

definition generate_tree_capped ::
  "nat \<Rightarrow> (nat \<Rightarrow> real) \<Rightarrow> point \<Rightarrow> real \<Rightarrow> preset \<Rightarrow> state \<Rightarrow> error option \<times> state" where
  "generate_tree_capped cap zs p angle ps st = drive zs ps cap 0 (Tree_init zs ps p angle st)"

definition generate_tree ::
  "(nat \<Rightarrow> real) \<Rightarrow> point \<Rightarrow> real \<Rightarrow> preset \<Rightarrow> state \<Rightarrow> error option \<times> state" where
  "generate_tree = generate_tree_capped MAX_BRANCH_COUNT"

subsection \<open>Activation in a given order\<close>

text \<open>The reading of "activates slots \<open>0..cap-1\<close> in order" that the loop is compared
  with: the slots of a list are activated one after the other, and the first exception
  ends the sequence.\<close>

fun activate_in_order ::
  "(nat \<Rightarrow> real) \<Rightarrow> preset \<Rightarrow> nat list \<Rightarrow> state \<Rightarrow> error option \<times> state" where
  "activate_in_order zs ps [] st = (None, st)"
| "activate_in_order zs ps (i # js) st =
     (case activate_slot zs ps i st of
        (None, st') \<Rightarrow> activate_in_order zs ps js st'
      | (Some e, st') \<Rightarrow> (Some e, st'))"

subsection \<open>Invariants of the branch list\<close>

text \<open>Every populated slot holds a branch whose stored index is the slot's position.\<close>

definition slots_indexed :: "state \<Rightarrow> bool" where
  "slots_indexed st =
     list_all (\<lambda>(j, x). case x of None \<Rightarrow> True | Some b \<Rightarrow> index b = j)
       (enumerate 0 (branches st))"

text \<open>Every branch in the list has a size between 0 and 1.\<close>

definition sizes_in_unit :: "state \<Rightarrow> bool" where
  "sizes_in_unit st =
     list_all (\<lambda>x. case x of None \<Rightarrow> True | Some b \<Rightarrow> 0 \<le> branch_size b \<and> branch_size b \<le> 1)
       (branches st)"

text \<open>Every slot from position \<open>k\<close> on is populated.\<close>

definition populated_from :: "nat \<Rightarrow> state \<Rightarrow> bool" where
  "populated_from k st = list_all (\<lambda>x. x \<noteq> None) (drop k (branches st))"

subsection \<open>The runs of the shipped program\<close>

text \<open>The calls of \<^verbatim>\<open>generate_tree\<close> that the program makes: the preset is the list
  \<^verbatim>\<open>presets\<close>, the origin is a mouse position on the display, and the variates are
  those of \<^verbatim>\<open>random.gauss\<close>, whose magnitude stays below 9 (it is at most the square
  root of \<open>2 * 53 * ln 2\<close>, about 8.6).\<close>

definition shipped_run :: "(nat \<Rightarrow> real) \<Rightarrow> point \<Rightarrow> preset \<Rightarrow> bool" where
  "shipped_run zs p ps \<longleftrightarrow>
     ps = presets \<and> (\<forall>n. \<bar>zs n\<bar> \<le> 9) \<and>
     0 \<le> fst p \<and> fst p < real (fst DISPLAY_RESOLUTION) \<and>
     0 \<le> snd p \<and> snd p < real (snd DISPLAY_RESOLUTION)"

subsection \<open>Concrete inputs\<close>

text \<open>A generator whose variates are all zero, and a world with an empty surface.\<close>

definition zeros :: "nat \<Rightarrow> real" where
  "zeros n = 0"

definition blank :: state where
  "blank = \<lparr> branches = [], surface = [], gauss_calls = 0 \<rparr>"

text \<open>The tree right after \<^verbatim>\<open>Tree.__init__\<close> at the origin with direction 0, under
  \<open>presets\<close> and \<open>zeros\<close>: the seed has length \<open>15 + 0 * 5\<close>.\<close>

definition sprout :: state where
  "sprout = \<lparr> branches = [Some \<lparr> index = 0, pos = (0, 0), branch_size = 1,
       branch_length = 15, branch_direction = 0 \<rparr>], surface = [], gauss_calls = 1 \<rparr>"

text \<open>The size-0 child of the first split of \<open>sprout\<close>, and the tree after that split
  (one line drawn, four more variates taken).\<close>

definition twig :: branch where
  "twig = \<lparr> index = 1, pos = (15, 0), branch_size = 0, branch_length = 0,
     branch_direction = - (pi / 6) \<rparr>"

definition forked :: state where
  "forked = \<lparr> branches = [None, Some twig,
       Some \<lparr> index = 2, pos = (15, 0), branch_size = 1, branch_length = 15,
              branch_direction = 0 \<rparr>],
     surface = [\<lparr> line_color = (255, 255, 255), line_start = (0, 0), line_end = (15, 0),
                  line_width = 3 \<rparr>],
     gauss_calls = 5 \<rparr>"

text \<open>The shipped preset with the length exponent replaced by \<open>-1\<close>.\<close>

definition inverse_length_presets :: preset where
  "inverse_length_presets = presets\<lparr>branch_length_factor := - 1\<rparr>"

text \<open>The shipped preset with the width exponent replaced by \<open>-1\<close>.\<close>

definition inverse_width_presets :: preset where
  "inverse_width_presets = presets\<lparr>branch_width_factor := - 1\<rparr>"

text \<open>A second generator, whose variates are zero after the first one, and a world in
  which one variate has been taken and one line has been drawn before.\<close>

definition late_zeros :: "nat \<Rightarrow> real" where
  "late_zeros n = (if n = 0 then 7 else 0)"

definition used :: state where
  "used = \<lparr> branches = [],
     surface = [\<lparr> line_color = (255, 0, 0), line_start = (1, 1), line_end = (2, 2),
                  line_width = 1 \<rparr>],
     gauss_calls = 1 \<rparr>"

text \<open>The doubles nearest to \<open>0.1\<close> and to \<open>0.2\<close>.\<close>

definition tenth :: real where
  "tenth = 3602879701896397 / 2 ^ 55"

definition fifth :: real where
  "fifth = 3602879701896397 / 2 ^ 54"

section \<open>Auxiliary lemmas\<close>

lemma one_less_double_overflow: "1 < double_overflow"
  by (simp add: double_overflow_def)

lemma py_pow_pos: "0 < x \<Longrightarrow> x powr y < double_overflow \<Longrightarrow> py_pow x y = Inr (x powr y)"
  by (simp add: py_pow_def)


lemma py_pow_not_caught: "py_pow x y = Inl e \<Longrightarrow> e \<noteq> IndexError \<and> e \<noteq> AttributeError"
  by (auto simp: py_pow_def split: if_splits)

lemma py_pow_total:
  assumes "0 \<le> x" "x \<le> 1" "0 \<le> y"
  shows "\<exists>v. py_pow x y = Inr v \<and> 0 \<le> v \<and> v \<le> 1"
proof (cases "x = 0")
  case True
  then show ?thesis using assms by (simp add: py_pow_def)
next
  case False
  with assms have x: "0 < x" by simp
  have "x powr y \<le> 1" using assms by (simp add: powr_le1)
  then have "py_pow x y = Inr (x powr y)"
    using x one_less_double_overflow by (simp add: py_pow_def)
  with \<open>x powr y \<le> 1\<close> show ?thesis by simp
qed

lemma split_proportion_range: "0 \<le> split_proportion x \<and> split_proportion x \<le> 1"
  by (simp add: split_proportion_def Let_def)

lemma branch_split_ok:
  assumes "branch_split zs ps idx p s d st = (None, st')"
  shows "idx < length (branches st) \<and> surface st' = surface st \<and>
    gauss_calls st' = gauss_calls st + 4 \<and>
    (\<exists>c1 c2 fa. branches st' = (branches st)[idx := None] @ [Some c1, Some c2]
      \<and> index c1 = length (branches st) \<and> index c2 = length (branches st) + 1
      \<and> pos c1 = p \<and> pos c2 = p
      \<and> branch_size c1 = s * split_proportion (zs (gauss_calls st) / 10)
      \<and> branch_size c2 = s * (1 - split_proportion (zs (gauss_calls st) / 10))
      \<and> py_pow s (branch_angle_factor ps) = Inr fa
      \<and> branch_direction c1 = d - (branch_angle_mean ps + zs (gauss_calls st + 3) * branch_angle_range ps) * fa
            * (1 - split_proportion (zs (gauss_calls st) / 10))
      \<and> branch_direction c2 = d + (branch_angle_mean ps + zs (gauss_calls st + 3) * branch_angle_range ps) * fa
            * split_proportion (zs (gauss_calls st) / 10))"
  using assms
  by (auto simp: branch_split_def gauss_def Let_def eval_nat_numeral split: if_splits sum.splits prod.splits)

lemma branch_split_error:
  assumes "branch_split zs ps idx p s d st = (Some e, st')" "idx < length (branches st)"
  shows "e \<noteq> IndexError \<and> e \<noteq> AttributeError \<and> surface st' = surface st \<and>
     branches st' = (branches st)[idx := None]"
  using assms
  by (auto simp: branch_split_def gauss_def Let_def split: if_splits sum.splits prod.splits
      dest: py_pow_not_caught)

lemma branch_split_no_error:
  assumes "idx < length (branches st)" "0 < s" "s \<le> 1" "0 \<le> branch_length_factor ps"
    and "0 \<le> branch_angle_factor ps"
  shows "fst (branch_split zs ps idx p s d st) = None"
proof -
  have q: "0 \<le> split_proportion (zs (gauss_calls st) / 10)" "split_proportion (zs (gauss_calls st) / 10) \<le> 1"
    using split_proportion_range by auto
  obtain f1 where f1: "py_pow (s * split_proportion (zs (gauss_calls st) / 10)) (branch_length_factor ps) = Inr f1"
    using py_pow_total[of "s * split_proportion (zs (gauss_calls st) / 10)" "branch_length_factor ps"] assms q
    by (auto simp: mult_le_one)
  obtain f2 where f2: "py_pow (s * (1 - split_proportion (zs (gauss_calls st) / 10))) (branch_length_factor ps) = Inr f2"
    using py_pow_total[of "s * (1 - split_proportion (zs (gauss_calls st) / 10))" "branch_length_factor ps"] assms q
    by (auto simp: mult_le_one)
  obtain fa where fa: "py_pow s (branch_angle_factor ps) = Inr fa"
    using py_pow_total[of s "branch_angle_factor ps"] assms by auto
  show ?thesis using assms(1) f1 f2 fa
    by (simp add: branch_split_def gauss_def Let_def)
qed

lemma draw_fields:
  "branches (draw c p1 p2 w st) = branches st \<and> gauss_calls (draw c p1 p2 w st) = gauss_calls st
   \<and> length (surface (draw c p1 p2 w st)) = Suc (length (surface st))
   \<and> take (length (surface st)) (surface (draw c p1 p2 w st)) = surface st"
  by (cases c) (simp add: draw_def Let_def)


lemma slots_indexed_nth:
  "slots_indexed st \<longleftrightarrow> (\<forall>j b. j < length (branches st) \<longrightarrow> branches st ! j = Some b \<longrightarrow> index b = j)"
  unfolding slots_indexed_def list_all_length
  by (auto simp: nth_enumerate_eq split: option.splits)

lemma sizes_in_unit_nth:
  "sizes_in_unit st \<longleftrightarrow> (\<forall>j b. j < length (branches st) \<longrightarrow> branches st ! j = Some b \<longrightarrow>
      0 \<le> branch_size b \<and> branch_size b \<le> 1)"
  unfolding sizes_in_unit_def list_all_length
  by (auto split: option.splits)

lemma populated_from_nth:
  "populated_from k st \<longleftrightarrow> (\<forall>j. k \<le> j \<longrightarrow> j < length (branches st) \<longrightarrow> branches st ! j \<noteq> None)"
proof
  assume h: "populated_from k st"
  show "\<forall>j. k \<le> j \<longrightarrow> j < length (branches st) \<longrightarrow> branches st ! j \<noteq> None"
  proof (intro allI impI)
    fix j assume "k \<le> j" "j < length (branches st)"
    then have "j - k < length (drop k (branches st))" "drop k (branches st) ! (j - k) = branches st ! j"
      by auto
    with h show "branches st ! j \<noteq> None"
      unfolding populated_from_def list_all_length by metis
  qed
next
  assume "\<forall>j. k \<le> j \<longrightarrow> j < length (branches st) \<longrightarrow> branches st ! j \<noteq> None"
  then show "populated_from k st"
    unfolding populated_from_def list_all_length by auto
qed

lemma activate_step:
  assumes "i < length (branches st)" "branches st ! i = Some b" "index b = i"
    and "activate zs ps b st = (r, st')"
  shows "r \<noteq> Some IndexError \<and> r \<noteq> Some AttributeError \<and>
    length (surface st') \<le> Suc (length (surface st)) \<and>
    take (length (surface st)) (surface st') = surface st \<and>
    (r \<noteq> None \<longrightarrow> branches st' = branches st \<or> branches st' = (branches st)[i := None]) \<and>
    (r = None \<longrightarrow> length (surface st') = Suc (length (surface st)) \<and>
       (if branch_size b > MINIMUM_BRANCH_SIZE
        then \<exists>c1 c2. branches st' = (branches st)[i := None] @ [Some c1, Some c2]
           \<and> index c1 = length (branches st) \<and> index c2 = length (branches st) + 1
           \<and> branch_size c1 = branch_size b * split_proportion (zs (gauss_calls st) / 10)
           \<and> branch_size c2 = branch_size b * (1 - split_proportion (zs (gauss_calls st) / 10))
        else branches st' = branches st))"
proof (cases "py_pow (branch_size b) (branch_width_factor ps)")
  case (Inl e)
  then have "r = Some e" "st' = st" using assms(4) by (auto simp: activate_def Let_def)
  moreover have "e \<noteq> IndexError \<and> e \<noteq> AttributeError"
    using Inl by (rule py_pow_not_caught)
  ultimately show ?thesis by simp
next
  case (Inr f)
  define fp where "fp = (fst (pos b) + cos (branch_direction b) * branch_length b,
              snd (pos b) + sin (branch_direction b) * branch_length b)"
  define st1 where "st1 = draw (255, 255, 255) (pos b) fp (branch_width ps * f) st"
  have d: "branches st1 = branches st" "gauss_calls st1 = gauss_calls st"
     "length (surface st1) = Suc (length (surface st))"
     "take (length (surface st)) (surface st1) = surface st"
    unfolding st1_def using draw_fields by auto
  show ?thesis
  proof (cases "pygame_draw_line_raises (last (surface st1))")
    case (Some e)
    then have "r = Some e" "st' = st"
      using assms(4) Inr by (auto simp: activate_def Let_def st1_def fp_def)
    moreover have "e \<noteq> IndexError \<and> e \<noteq> AttributeError"
      using Some by (auto simp: pygame_draw_line_raises_def Let_def split: prod.splits if_splits)
    ultimately show ?thesis by simp
  next
    case accepted: None
    show ?thesis
    proof (cases "branch_size b > MINIMUM_BRANCH_SIZE")
      case False
      then have "r = None" "st' = st1"
        using assms(4) Inr accepted by (auto simp: activate_def Let_def st1_def fp_def)
      then show ?thesis using d False by simp
    next
      case True
      then have bs: "branch_split zs ps i fp (branch_size b) (branch_direction b) st1 = (r, st')"
        using assms(3,4) Inr accepted by (auto simp: activate_def Let_def st1_def fp_def)
      show ?thesis
      proof (cases r)
        case None
        from branch_split_ok[OF bs[unfolded None]] show ?thesis
          using d True None by auto
      next
        case (Some e)
        from branch_split_error[OF bs[unfolded Some]] show ?thesis
          using d True Some assms(1) by auto
      qed
    qed
  qed
qed


lemma list_all_update: "list_all P xs \<Longrightarrow> P v \<Longrightarrow> list_all P (xs[i := v])"
  unfolding list_all_length by (cases "i < length xs") (auto simp: nth_list_update)

lemma activate_slot_out_of_range:
  "length (branches st) \<le> i \<Longrightarrow> activate_slot zs ps i st = (Some IndexError, st)"
  by (simp add: activate_slot_def)

lemma inv_step:
  assumes ix: "slots_indexed st" and sz: "sizes_in_unit st" and pop: "populated_from i st"
    and i: "i < length (branches st)" and act: "activate_slot zs ps i st = (r, st')"
  shows "r \<noteq> Some IndexError \<and> r \<noteq> Some AttributeError \<and> sizes_in_unit st' \<and>
    length (surface st') \<le> Suc (length (surface st)) \<and>
    take (length (surface st)) (surface st') = surface st \<and>
    (r = None \<longrightarrow> slots_indexed st' \<and> populated_from (Suc i) st' \<and>
       length (surface st') = Suc (length (surface st)) \<and>
       length (branches st) \<le> length (branches st'))"
proof -
  from pop i obtain b where b: "branches st ! i = Some b"
    unfolding populated_from_nth by (cases "branches st ! i") auto
  with ix i have ib: "index b = i" unfolding slots_indexed_nth by blast
  from b i sz have sb: "0 \<le> branch_size b" "branch_size b \<le> 1"
    unfolding sizes_in_unit_nth by blast+
  from act b i have a: "activate zs ps b st = (r, st')"
    by (simp add: activate_slot_def)
  note st = activate_step[OF i b ib a]
  have q: "0 \<le> split_proportion (zs (gauss_calls st) / 10)"
      "split_proportion (zs (gauss_calls st) / 10) \<le> 1"
    using split_proportion_range by auto
  have sz': "sizes_in_unit st'"
  proof (cases r)
    case (Some e)
    with st have "branches st' = branches st \<or> branches st' = (branches st)[i := None]" by simp
    then show ?thesis using sz unfolding sizes_in_unit_def
      by (auto intro!: list_all_update)
  next
    case None
    show ?thesis
    proof (cases "branch_size b > MINIMUM_BRANCH_SIZE")
      case False
      with st None have "branches st' = branches st" by simp
      then show ?thesis using sz unfolding sizes_in_unit_def by simp
    next
      case True
      with st None obtain c1 c2 where c: "branches st' = (branches st)[i := None] @ [Some c1, Some c2]"
        "branch_size c1 = branch_size b * split_proportion (zs (gauss_calls st) / 10)"
        "branch_size c2 = branch_size b * (1 - split_proportion (zs (gauss_calls st) / 10))"
        by auto
      have c1: "0 \<le> branch_size c1" "branch_size c1 \<le> 1"
        using c(2) sb q by (auto intro: mult_le_one)
      have c2: "0 \<le> branch_size c2" "branch_size c2 \<le> 1"
        using c(3) sb q by (auto intro: mult_le_one)
      have old: "list_all (\<lambda>x. case x of None \<Rightarrow> True | Some b \<Rightarrow> 0 \<le> branch_size b \<and> branch_size b \<le> 1)
          ((branches st)[i := None])"
        using sz unfolding sizes_in_unit_def by (auto intro!: list_all_update)
      show ?thesis unfolding sizes_in_unit_def c(1) using old c1 c2 by simp
    qed
  qed
  have ok: "slots_indexed st' \<and> populated_from (Suc i) st' \<and> length (branches st) \<le> length (branches st')"
    if None: "r = None"
  proof (cases "branch_size b > MINIMUM_BRANCH_SIZE")
    case False
    with st None have e: "branches st' = branches st" by simp
    then show ?thesis using ix pop unfolding slots_indexed_nth populated_from_nth by auto
  next
    case True
    with st None obtain c1 c2 where c: "branches st' = (branches st)[i := None] @ [Some c1, Some c2]"
      "index c1 = length (branches st)" "index c2 = length (branches st) + 1"
      by auto
    have "slots_indexed st'"
      unfolding slots_indexed_nth c(1) using ix[unfolded slots_indexed_nth] c(2,3) i
      by (auto simp: nth_append nth_list_update nth_Cons' split: if_splits)
    moreover have "populated_from (Suc i) st'"
      unfolding populated_from_nth c(1) using pop[unfolded populated_from_nth] i
      by (auto simp: nth_append nth_list_update nth_Cons' split: if_splits)
    ultimately show ?thesis using c(1) by simp
  qed
  show ?thesis using st sz' ok by auto
qed

lemma drive_in_order:
  "i \<le> cap \<Longrightarrow> \<exists>k st'. i \<le> k \<and> k \<le> cap \<and> activate_in_order zs ps [i..<k] st = (None, st') \<and>
     (if k = cap then drive zs ps cap i st = (None, st')
      else \<exists>e st''. activate_slot zs ps k st' = (Some e, st'') \<and>
             drive zs ps cap i st = (if e = IndexError then None else Some e, st''))"
proof (induction zs ps cap i st rule: drive.induct)
  case (1 zs ps cap i st)
  show ?case
  proof (cases "i < cap")
    case False
    with "1.prems" have "i = cap" by simp
    then show ?thesis by (auto simp: drive.simps intro!: exI[of _ cap])
  next
    case True
    obtain r st1 where a: "activate_slot zs ps i st = (r, st1)" by (cases "activate_slot zs ps i st")
    show ?thesis
    proof (cases r)
      case None
      from "1.IH"[OF True a[symmetric, unfolded None] refl] True
      obtain k st' where k: "Suc i \<le> k" "k \<le> cap"
        "activate_in_order zs ps [Suc i..<k] st1 = (None, st')"
        "if k = cap then drive zs ps cap (i + 1) st1 = (None, st')
         else \<exists>e st''. activate_slot zs ps k st' = (Some e, st'') \<and>
             drive zs ps cap (i + 1) st1 = (if e = IndexError then None else Some e, st'')"
        by auto
      have u: "[i..<k] = i # [Suc i..<k]" using k(1) by (simp add: upt_rec)
      have d: "drive zs ps cap i st = drive zs ps cap (i + 1) st1"
        using True a None by (subst drive.simps) simp
      have "if k = cap then drive zs ps cap i st = (None, st')
         else \<exists>e st''. activate_slot zs ps k st' = (Some e, st'') \<and>
             drive zs ps cap i st = (if e = IndexError then None else Some e, st'')"
        using k(4) unfolding d .
      moreover have "activate_in_order zs ps [i..<k] st = (None, st')"
        using k(3) a None u by simp
      moreover have "i \<le> k" using k(1) by simp
      ultimately show ?thesis using k(2) by blast
    next
      case (Some e)
      have d: "drive zs ps cap i st = (if e = IndexError then None else Some e, st1)"
        using True a Some by (subst drive.simps) (cases e; simp)
      have "activate_in_order zs ps [i..<i] st = (None, st)" by simp
      moreover have "i \<noteq> cap" using True by simp
      moreover have "\<exists>e st''. activate_slot zs ps i st = (Some e, st'') \<and>
             drive zs ps cap i st = (if e = IndexError then None else Some e, st'')"
        using a Some d by blast
      ultimately show ?thesis using True
        by (intro exI[of _ i] exI[of _ st]) simp
    qed
  qed
qed

lemma Tree_init_fields:
  "branches (Tree_init zs ps p a st) =
     [Some \<lparr> index = 0, pos = p, branch_size = 1,
        branch_length = branch_length_mean ps + zs (gauss_calls st) * branch_length_range ps,
        branch_direction = a \<rparr>]"
  "surface (Tree_init zs ps p a st) = surface st"
  "gauss_calls (Tree_init zs ps p a st) = Suc (gauss_calls st)"
  by (simp_all add: Tree_init_def gauss_def)

lemma Tree_init_inv:
  "slots_indexed (Tree_init zs ps p a st)"
  "sizes_in_unit (Tree_init zs ps p a st)"
  "populated_from 0 (Tree_init zs ps p a st)"
  by (simp_all add: slots_indexed_def sizes_in_unit_def populated_from_def Tree_init_fields)

lemma in_order_inv:
  assumes "slots_indexed st" "sizes_in_unit st" "populated_from i st" "i \<le> k"
    and "activate_in_order zs ps [i..<k] st = (r, st')"
  shows "sizes_in_unit st' \<and> r \<noteq> Some AttributeError \<and>
    length (surface st') \<le> length (surface st) + (k - i) \<and>
    take (length (surface st)) (surface st') = surface st \<and>
    (r = None \<longrightarrow> slots_indexed st' \<and> populated_from k st' \<and>
       length (surface st') = length (surface st) + (k - i) \<and>
       (i < k \<longrightarrow> k \<le> length (branches st')) \<and>
       length (branches st) \<le> length (branches st'))"
  using assms
proof (induction "k - i" arbitrary: i st)
  case 0
  then show ?case by simp
next
  case (Suc n)
  then have ik: "i < k" and n: "n = k - Suc i" by auto
  then have u: "[i..<k] = i # [Suc i..<k]" by (simp add: upt_rec)
  obtain r1 st1 where a: "activate_slot zs ps i st = (r1, st1)"
    by (cases "activate_slot zs ps i st")
  show ?case
  proof (cases "length (branches st) \<le> i")
    case True
    then have "r1 = Some IndexError" "st1 = st"
      using a activate_slot_out_of_range[OF True, of zs ps] by auto
    then have "r = Some IndexError" "st' = st"
      using Suc.prems(5) u a by auto
    then show ?thesis using Suc.prems(2) by simp
  next
    case False
    then have il: "i < length (branches st)" by simp
    note s = inv_step[OF Suc.prems(1,2,3) il a]
    show ?thesis
    proof (cases r1)
      case (Some e)
      then have "r = Some e" "st' = st1" using Suc.prems(5) u a by auto
      then show ?thesis using s Some ik by auto
    next
      case None
      then have rest: "activate_in_order zs ps [Suc i..<k] st1 = (r, st')"
        using Suc.prems(5) u a by simp
      from s None have inv1: "slots_indexed st1" "sizes_in_unit st1" "populated_from (Suc i) st1"
        and l1: "length (surface st1) = Suc (length (surface st))"
        and t1: "take (length (surface st)) (surface st1) = surface st"
        and b1: "length (branches st) \<le> length (branches st1)"
        by auto
      have ik': "Suc i \<le> k" using ik by simp
      note ih = Suc.hyps(1)[OF n inv1 ik' rest]
      have tk: "take (length (surface st)) (surface st') = surface st"
      proof -
        have "take (length (surface st)) (surface st')
            = take (length (surface st)) (take (length (surface st1)) (surface st'))"
          using l1 by (simp add: min_def)
        also have "\<dots> = take (length (surface st)) (surface st1)" using ih by simp
        finally show ?thesis using t1 by simp
      qed
      have kl: "k \<le> length (branches st')" if "r = None"
      proof (cases "Suc i < k")
        case True
        with ih that show ?thesis by simp
      next
        case False
        with ik have "k = Suc i" by simp
        moreover from ih that have "length (branches st1) \<le> length (branches st')" by simp
        ultimately show ?thesis using il b1 by simp
      qed
      show ?thesis using ih l1 tk kl b1 ik by auto
    qed
  qed
qed

lemma drive_step:
  "i < cap \<Longrightarrow> drive zs ps cap i st =
     (case activate_slot zs ps i st of
        (None, st') \<Rightarrow> drive zs ps cap (i + 1) st'
      | (Some IndexError, st') \<Rightarrow> (None, st')
      | (Some e, st') \<Rightarrow> (Some e, st'))"
  by (subst drive.simps) simp

lemma drive_end: "\<not> i < cap \<Longrightarrow> drive zs ps cap i st = (None, st)"
  by (subst drive.simps) simp

lemma drive_out_of_range:
  "length (branches st) \<le> i \<Longrightarrow> drive zs ps cap i st = (None, st)"
  by (subst drive.simps) (simp add: activate_slot_out_of_range)

lemmas eval_simps = generate_tree_capped_def Tree_init_def activate_slot_def activate_def
  branch_split_def draw_def pygame_draw_line_raises_def gauss_def split_proportion_def
  py_pow_def double_overflow_def py_int_def zeros_def presets_def blank_def
  MINIMUM_BRANCH_SIZE_def Let_def drive_step drive_end

lemma drive_run:
  assumes inv: "slots_indexed st" "sizes_in_unit st" "populated_from 0 st"
  shows "\<exists>k st'. k \<le> cap \<and> activate_in_order zs ps [0..<k] st = (None, st') \<and>
     slots_indexed st' \<and> sizes_in_unit st' \<and> populated_from k st' \<and>
     k \<le> length (branches st') \<and>
     length (surface st') = length (surface st) + k \<and>
     take (length (surface st)) (surface st') = surface st \<and>
     (k = cap \<and> drive zs ps cap 0 st = (None, st')
      \<or> k < cap \<and> k = length (branches st') \<and> drive zs ps cap 0 st = (None, st')
      \<or> k < cap \<and> k < length (branches st') \<and>
         (\<exists>e st''. e \<noteq> IndexError \<and> e \<noteq> AttributeError \<and>
            activate_slot zs ps k st' = (Some e, st'') \<and> sizes_in_unit st'' \<and>
            length (surface st'') \<le> Suc (length (surface st')) \<and>
            take (length (surface st')) (surface st'') = surface st' \<and>
            drive zs ps cap 0 st = (Some e, st'')))"
proof -
  from drive_in_order[of 0 cap zs ps st] obtain k st' where
    k: "k \<le> cap" "activate_in_order zs ps [0..<k] st = (None, st')"
    and d: "if k = cap then drive zs ps cap 0 st = (None, st')
      else \<exists>e st''. activate_slot zs ps k st' = (Some e, st'') \<and>
             drive zs ps cap 0 st = (if e = IndexError then None else Some e, st'')"
    by auto
  from in_order_inv[OF inv _ k(2)] have
    i': "slots_indexed st'" "sizes_in_unit st'" "populated_from k st'"
    and l: "length (surface st') = length (surface st) + k"
    and t: "take (length (surface st)) (surface st') = surface st"
    and kl: "k \<le> length (branches st')"
    by (auto simp: Suc_le_eq)
  have "k = cap \<and> drive zs ps cap 0 st = (None, st')
      \<or> k < cap \<and> k = length (branches st') \<and> drive zs ps cap 0 st = (None, st')
      \<or> k < cap \<and> k < length (branches st') \<and>
         (\<exists>e st''. e \<noteq> IndexError \<and> e \<noteq> AttributeError \<and>
            activate_slot zs ps k st' = (Some e, st'') \<and> sizes_in_unit st'' \<and>
            length (surface st'') \<le> Suc (length (surface st')) \<and>
            take (length (surface st')) (surface st'') = surface st' \<and>
            drive zs ps cap 0 st = (Some e, st''))"
  proof (cases "k = cap")
    case True
    with d show ?thesis by simp
  next
    case False
    with k have kc: "k < cap" by simp
    from d False obtain e st'' where
      e: "activate_slot zs ps k st' = (Some e, st'')"
        "drive zs ps cap 0 st = (if e = IndexError then None else Some e, st'')"
      by auto
    show ?thesis
    proof (cases "k < length (branches st')")
      case True
      from inv_step[OF i' True e(1)] have "e \<noteq> IndexError" "e \<noteq> AttributeError"
        "sizes_in_unit st''" "length (surface st'') \<le> Suc (length (surface st'))"
        "take (length (surface st')) (surface st'') = surface st'"
        by auto
      moreover from this e(2) have "drive zs ps cap 0 st = (Some e, st'')" by simp
      ultimately show ?thesis using kc True e(1) by blast
    next
      case False
      with kl have eq: "k = length (branches st')" by simp
      then have "activate_slot zs ps k st' = (Some IndexError, st')"
        by (simp add: activate_slot_out_of_range)
      with e have "e = IndexError" "st'' = st'" by auto
      with e(2) kc eq show ?thesis by simp
    qed
  qed
  with k i' l t kl show ?thesis by blast
qed

lemma draw_accepted:
  assumes "0 \<le> w" "w < 2 ^ 31"
  shows "pygame_draw_line_raises (last (surface (draw (255, 255, 255) p1 p2 w st))) = None"
proof (cases "w < 1")
  case True
  have "0 \<le> 255 * w" "255 * w < 255" using assms True by simp_all
  then have "0 \<le> \<lfloor>255 * w\<rfloor>" "\<lfloor>255 * w\<rfloor> \<le> 255"
    by (simp_all add: le_floor_iff floor_le_iff)
  then show ?thesis using True \<open>0 \<le> 255 * w\<close>
    by (simp add: draw_def pygame_draw_line_raises_def py_int_def Let_def)
next
  case False
  then have "0 \<le> \<lfloor>w\<rfloor>" "\<lfloor>w\<rfloor> < 2 ^ 31"
    using assms by (simp_all add: le_floor_iff floor_less_iff)
  then show ?thesis using False assms
    by (simp add: draw_def pygame_draw_line_raises_def py_int_def Let_def)
qed

lemma activate_slot_no_error:
  assumes ix: "slots_indexed st" and sz: "sizes_in_unit st" and pop: "populated_from i st"
    and i: "i < length (branches st)"
    and wf: "0 \<le> branch_width_factor ps" and lf: "0 \<le> branch_length_factor ps"
    and af: "0 \<le> branch_angle_factor ps"
    and bw: "0 \<le> branch_width ps" "branch_width ps < 2 ^ 31"
  shows "fst (activate_slot zs ps i st) = None"
proof -
  from pop i obtain b where b: "branches st ! i = Some b"
    unfolding populated_from_nth by (cases "branches st ! i") auto
  with ix i have ib: "index b = i" unfolding slots_indexed_nth by blast
  from b i sz have sb: "0 \<le> branch_size b" "branch_size b \<le> 1"
    unfolding sizes_in_unit_nth by blast+
  from py_pow_total[OF sb wf] obtain f where
    f: "py_pow (branch_size b) (branch_width_factor ps) = Inr f" "0 \<le> f" "f \<le> 1"
    by blast
  have w: "0 \<le> branch_width ps * f" "branch_width ps * f < 2 ^ 31"
  proof -
    show "0 \<le> branch_width ps * f" using bw(1) f(2) by simp
    have "branch_width ps * f \<le> branch_width ps * 1"
      using bw(1) f(3) by (intro mult_left_mono) simp_all
    then show "branch_width ps * f < 2 ^ 31" using bw(2) by simp
  qed
  have acc: "pygame_draw_line_raises
      (last (surface (draw (255, 255, 255) p1 p2 (branch_width ps * f) st))) = None" for p1 p2
    by (rule draw_accepted[OF w])
  have a: "activate_slot zs ps i st = activate zs ps b st"
    using b i by (simp add: activate_slot_def)
  show ?thesis
  proof (cases "branch_size b > MINIMUM_BRANCH_SIZE")
    case False
    then show ?thesis unfolding a by (simp add: activate_def Let_def f(1) acc)
  next
    case True
    then have pos: "0 < branch_size b" by (simp add: MINIMUM_BRANCH_SIZE_def)
    have "fst (branch_split zs ps i p (branch_size b) d (draw c p1 p2 w st)) = None" for p d c p1 p2 w
      by (rule branch_split_no_error) (use i pos sb lf af draw_fields in auto)
    then show ?thesis unfolding a using True ib by (simp add: activate_def Let_def f(1) acc)
  qed
qed

lemma presets_safe:
  "0 \<le> branch_width_factor presets" "0 \<le> branch_length_factor presets"
  "0 \<le> branch_angle_factor presets" "0 \<le> branch_width presets"
  "branch_width presets < 2 ^ 31"
  by (simp_all add: presets_def)

lemma shipped_run_zeros: "shipped_run zeros (0, 0) presets"
  by (simp add: shipped_run_def zeros_def DISPLAY_RESOLUTION_def)

lemma split_sprout:
  "branch_split zeros presets 0 (15, 0) 1 0 sprout =
     (None, \<lparr> branches = [None,
        Some \<lparr> index = 1, pos = (15, 0), branch_size = 0, branch_length = 0,
               branch_direction = - (pi / 6) \<rparr>,
        Some \<lparr> index = 2, pos = (15, 0), branch_size = 1, branch_length = 15,
               branch_direction = 0 \<rparr>], surface = [], gauss_calls = 5 \<rparr>)"
  by (simp add: branch_split_def sprout_def zeros_def presets_def gauss_def Let_def
      split_proportion_def py_pow_def double_overflow_def)

lemma generate_tree_run:
  "\<exists>k st'. k \<le> cap \<and>
     activate_in_order zs ps [0..<k] (Tree_init zs ps p a st0) = (None, st') \<and>
     slots_indexed st' \<and> sizes_in_unit st' \<and> populated_from k st' \<and>
     k \<le> length (branches st') \<and>
     length (surface st') = length (surface st0) + k \<and>
     take (length (surface st0)) (surface st') = surface st0 \<and>
     (k = cap \<and> generate_tree_capped cap zs p a ps st0 = (None, st')
      \<or> k < cap \<and> k = length (branches st') \<and>
         generate_tree_capped cap zs p a ps st0 = (None, st')
      \<or> k < cap \<and> k < length (branches st') \<and>
         (\<exists>e st''. e \<noteq> IndexError \<and> e \<noteq> AttributeError \<and>
            activate_slot zs ps k st' = (Some e, st'') \<and> sizes_in_unit st'' \<and>
            length (surface st'') \<le> Suc (length (surface st')) \<and>
            take (length (surface st')) (surface st'') = surface st' \<and>
            generate_tree_capped cap zs p a ps st0 = (Some e, st'')))"
proof -
  have inv: "slots_indexed (Tree_init zs ps p a st0)" "sizes_in_unit (Tree_init zs ps p a st0)"
    "populated_from 0 (Tree_init zs ps p a st0)"
    by (rule Tree_init_inv)+
  from drive_run[OF inv, of cap zs ps] show ?thesis
    unfolding generate_tree_capped_def Tree_init_fields .
qed

lemma reach_inv:
  assumes "activate_in_order zs ps [0..<i] (Tree_init zs ps p a st0) = (None, st)"
  shows "slots_indexed st \<and> sizes_in_unit st \<and> populated_from i st \<and>
     i \<le> length (branches st) \<and> length (surface st) = length (surface st0) + i"
proof -
  have inv: "slots_indexed (Tree_init zs ps p a st0)" "sizes_in_unit (Tree_init zs ps p a st0)"
    "populated_from 0 (Tree_init zs ps p a st0)"
    by (rule Tree_init_inv)+
  from in_order_inv[OF inv _ assms] show ?thesis
    by (auto simp: Suc_le_eq Tree_init_fields)
qed

lemma run_zeros_1:
  "generate_tree_capped 1 zeros (0, 0) 0 presets blank = (None, forked)"
  by (simp add: eval_simps forked_def twig_def)

lemma activate_sprout:
  "activate zeros presets \<lparr> index = 0, pos = (0, 0), branch_size = 1,
       branch_length = 15, branch_direction = 0 \<rparr> sprout = (None, forked)"
  by (simp add: eval_simps sprout_def forked_def twig_def)

lemma activate_twig:
  "activate zeros presets twig forked =
    (None, forked\<lparr>surface := surface forked @
       [\<lparr> line_color = (0, 0, 0), line_start = (15, 0), line_end = (15, 0),
            line_width = 1 \<rparr>]\<rparr>)"
  by (simp add: eval_simps forked_def twig_def)

lemma run_zeros_5:
  "generate_tree_capped 5 zeros (0, 0) 0 presets blank =
    (None,
      \<lparr>branches =
         [None,
          Some \<lparr>index = 1, pos = (15, 0), branch_size = 0, branch_length = 0,
             branch_direction = - (pi / 6)\<rparr>,
          None,
          Some \<lparr>index = 3, pos = (30, 0), branch_size = 0, branch_length = 0,
             branch_direction = - (pi / 6)\<rparr>,
          None,
          Some \<lparr>index = 5, pos = (45, 0), branch_size = 0, branch_length = 0,
             branch_direction = - (pi / 6)\<rparr>,
          Some \<lparr>index = 6, pos = (45, 0), branch_size = 1, branch_length = 15,
             branch_direction = 0\<rparr>],
       surface =
         [\<lparr>line_color = (255, 255, 255), line_start = (0, 0), line_end = (15, 0),
             line_width = 3\<rparr>,
          \<lparr>line_color = (0, 0, 0), line_start = (15, 0), line_end = (15, 0),
             line_width = 1\<rparr>,
          \<lparr>line_color = (255, 255, 255), line_start = (15, 0), line_end = (30, 0),
             line_width = 3\<rparr>,
          \<lparr>line_color = (0, 0, 0), line_start = (30, 0), line_end = (30, 0),
             line_width = 1\<rparr>,
          \<lparr>line_color = (255, 255, 255), line_start = (30, 0), line_end = (45, 0),
             line_width = 3\<rparr>],
       gauss_calls = 13\<rparr>)"
  by (simp add: eval_simps)

lemma in_order_sprout_0:
  "activate_in_order zeros presets [0..<0] (Tree_init zeros presets (0, 0) 0 blank) = (None, sprout)"
  by (simp add: Tree_init_def gauss_def zeros_def presets_def blank_def sprout_def)

lemma activate_slot_sprout: "activate_slot zeros presets 0 sprout = (None, forked)"
  by (simp add: eval_simps sprout_def forked_def twig_def)

lemma run_inverse_length:
  "generate_tree_capped 1 zeros (0, 0) 0 inverse_length_presets blank =
    (Some ZeroDivisionError,
      \<lparr>branches = [None],
         surface = [\<lparr>line_color = (255, 255, 255), line_start = (0, 0),
               line_end = (15, 0), line_width = 3\<rparr>],
         gauss_calls = 3\<rparr>)"
  by (simp add: eval_simps inverse_length_presets_def)

lemma branch_split_shift:
  "branch_split zs ps idx p s d st =
     (case branch_split (\<lambda>n. zs (gauss_calls st + n)) ps idx p s d
             (st\<lparr>surface := [], gauss_calls := 0\<rparr>) of
        (r, t) \<Rightarrow> (r, t\<lparr>surface := surface st @ surface t,
                         gauss_calls := gauss_calls st + gauss_calls t\<rparr>))"
  by (simp add: branch_split_def gauss_def Let_def split: sum.splits)

lemma activate_shift:
  "activate zs ps b st =
     (case activate (\<lambda>n. zs (gauss_calls st + n)) ps b
             (st\<lparr>surface := [], gauss_calls := 0\<rparr>) of
        (r, t) \<Rightarrow> (r, t\<lparr>surface := surface st @ surface t,
                         gauss_calls := gauss_calls st + gauss_calls t\<rparr>))"
  by (simp add: activate_def branch_split_def draw_def gauss_def Let_def
      split: sum.splits option.splits)

lemma activate_slot_shift:
  "activate_slot zs ps i st =
     (case activate_slot (\<lambda>n. zs (gauss_calls st + n)) ps i
             (st\<lparr>surface := [], gauss_calls := 0\<rparr>) of
        (r, t) \<Rightarrow> (r, t\<lparr>surface := surface st @ surface t,
                         gauss_calls := gauss_calls st + gauss_calls t\<rparr>))"
  unfolding activate_slot_def
  by (subst activate_shift) (simp split: option.splits)


lemma activate_slot_sim:
  assumes "branches st = branches st'"
    and "\<forall>n. zs (gauss_calls st + n) = zs' (gauss_calls st' + n)"
  shows "\<exists>r t. activate_slot zs ps i st =
            (r, t\<lparr>surface := surface st @ surface t,
                  gauss_calls := gauss_calls st + gauss_calls t\<rparr>) \<and>
          activate_slot zs' ps i st' =
            (r, t\<lparr>surface := surface st' @ surface t,
                  gauss_calls := gauss_calls st' + gauss_calls t\<rparr>)"
proof -
  have z: "(\<lambda>n. zs (gauss_calls st + n)) = (\<lambda>n. zs' (gauss_calls st' + n))"
    using assms(2) by auto
  have n: "st\<lparr>surface := [], gauss_calls := 0\<rparr> = st'\<lparr>surface := [], gauss_calls := 0\<rparr>"
    using assms(1) by (cases st, cases st') simp
  obtain r t where rt: "activate_slot (\<lambda>n. zs (gauss_calls st + n)) ps i
       (st\<lparr>surface := [], gauss_calls := 0\<rparr>) = (r, t)"
    by (cases "activate_slot (\<lambda>n. zs (gauss_calls st + n)) ps i
       (st\<lparr>surface := [], gauss_calls := 0\<rparr>)")
  have "activate_slot zs ps i st =
      (r, t\<lparr>surface := surface st @ surface t, gauss_calls := gauss_calls st + gauss_calls t\<rparr>)"
    by (subst activate_slot_shift) (simp add: rt)
  moreover have "activate_slot zs' ps i st' =
      (r, t\<lparr>surface := surface st' @ surface t, gauss_calls := gauss_calls st' + gauss_calls t\<rparr>)"
    by (subst activate_slot_shift) (simp add: rt[unfolded z n])
  ultimately show ?thesis by blast
qed

lemma drive_sim:
  assumes "branches st = branches st'"
    and "\<forall>n. zs (gauss_calls st + n) = zs' (gauss_calls st' + n)"
  shows "fst (drive zs ps cap i st) = fst (drive zs' ps cap i st') \<and>
    branches (snd (drive zs ps cap i st)) = branches (snd (drive zs' ps cap i st')) \<and>
    (\<exists>ls. surface (snd (drive zs ps cap i st)) = surface st @ ls \<and>
          surface (snd (drive zs' ps cap i st')) = surface st' @ ls) \<and>
    (\<exists>m. gauss_calls (snd (drive zs ps cap i st)) = gauss_calls st + m \<and>
         gauss_calls (snd (drive zs' ps cap i st')) = gauss_calls st' + m)"
  using assms
proof (induction "cap - i" arbitrary: i st st')
  case 0
  then have "\<not> i < cap" by simp
  then show ?case using "0.prems" by (simp add: drive_end)
next
  case (Suc k)
  then have ic: "i < cap" and k: "k = cap - (i + 1)" by auto
  from activate_slot_sim[OF Suc.prems, of ps i] obtain r t where
    a: "activate_slot zs ps i st =
            (r, t\<lparr>surface := surface st @ surface t,
                  gauss_calls := gauss_calls st + gauss_calls t\<rparr>)"
       "activate_slot zs' ps i st' =
            (r, t\<lparr>surface := surface st' @ surface t,
                  gauss_calls := gauss_calls st' + gauss_calls t\<rparr>)"
    by blast
  define st1 where "st1 = t\<lparr>surface := surface st @ surface t,
                  gauss_calls := gauss_calls st + gauss_calls t\<rparr>"
  define st1' where "st1' = t\<lparr>surface := surface st' @ surface t,
                  gauss_calls := gauss_calls st' + gauss_calls t\<rparr>"
  have f: "branches st1 = branches st1'" "surface st1 = surface st @ surface t"
    "surface st1' = surface st' @ surface t" "gauss_calls st1 = gauss_calls st + gauss_calls t"
    "gauss_calls st1' = gauss_calls st' + gauss_calls t"
    by (simp_all add: st1_def st1'_def)
  show ?case
  proof (cases r)
    case None
    have z: "\<forall>n. zs (gauss_calls st1 + n) = zs' (gauss_calls st1' + n)"
    proof
      fix n
      from Suc.prems(2) have "zs (gauss_calls st + (gauss_calls t + n))
          = zs' (gauss_calls st' + (gauss_calls t + n))" by blast
      then show "zs (gauss_calls st1 + n) = zs' (gauss_calls st1' + n)"
        by (simp add: f add.assoc)
    qed
    note ih = Suc.hyps(1)[OF k f(1) z]
    have d: "drive zs ps cap i st = drive zs ps cap (i + 1) st1"
      "drive zs' ps cap i st' = drive zs' ps cap (i + 1) st1'"
      using ic a None by (simp_all add: drive_step st1_def st1'_def)
    from ih obtain ls m where
      "surface (snd (drive zs ps cap (i + 1) st1)) = surface st1 @ ls"
      "surface (snd (drive zs' ps cap (i + 1) st1')) = surface st1' @ ls"
      "gauss_calls (snd (drive zs ps cap (i + 1) st1)) = gauss_calls st1 + m"
      "gauss_calls (snd (drive zs' ps cap (i + 1) st1')) = gauss_calls st1' + m"
      by blast
    then have "surface (snd (drive zs ps cap i st)) = surface st @ (surface t @ ls)"
      "surface (snd (drive zs' ps cap i st')) = surface st' @ (surface t @ ls)"
      "gauss_calls (snd (drive zs ps cap i st)) = gauss_calls st + (gauss_calls t + m)"
      "gauss_calls (snd (drive zs' ps cap i st')) = gauss_calls st' + (gauss_calls t + m)"
      unfolding d by (simp_all add: f)
    moreover from ih have "fst (drive zs ps cap i st) = fst (drive zs' ps cap i st')"
      "branches (snd (drive zs ps cap i st)) = branches (snd (drive zs' ps cap i st'))"
      unfolding d by simp_all
    ultimately show ?thesis by blast
  next
    case (Some e)
    have d: "drive zs ps cap i st = (if e = IndexError then None else Some e, st1)"
      "drive zs' ps cap i st' = (if e = IndexError then None else Some e, st1')"
      using ic a Some by (cases e; simp add: drive_step st1_def st1'_def)+
    show ?thesis unfolding d using f by simp
  qed
qed

lemma run_late_zeros_1:
  "generate_tree_capped 1 late_zeros (0, 0) 0 presets used =
     (None, forked\<lparr>surface := surface used @ surface forked, gauss_calls := 6\<rparr>)"
  by (simp add: eval_simps late_zeros_def used_def forked_def twig_def)

lemma run_inverse_width:
  "generate_tree_capped 5 zeros (0, 0) 0 inverse_width_presets blank =
     (Some ZeroDivisionError, forked)"
  by (simp add: eval_simps inverse_width_presets_def forked_def twig_def)

lemma round_even_error: "\<bar>of_int (round_even y) - y\<bar> \<le> 1 / 2"
proof -
  have "of_int \<lfloor>y\<rfloor> \<le> y" "y < of_int \<lfloor>y\<rfloor> + 1" by linarith+
  then show ?thesis
    by (auto simp: round_even_def Let_def abs_le_iff)
qed

lemma floor_log2_eqI:
  assumes "2 powi k \<le> x" "x < 2 powi (k + 1)"
  shows "\<lfloor>log 2 x\<rfloor> = k"
proof (rule floor_unique)
  have "0 < (2::real) powi k" by simp
  with assms(1) have x: "0 < x" by linarith
  show "of_int k \<le> log 2 x"
    using assms(1) x by (simp add: le_log_iff powr_real_of_int')
  have "(2::real) powr of_int (k + 1) = 2 powi (k + 1)"
    by (rule powr_real_of_int') simp_all
  then have "x < 2 powr of_int (k + 1)"
    using assms(2) by simp
  then have "log 2 x < of_int (k + 1)"
    using x by (subst log_less_iff) simp_all
  then show "log 2 x < of_int k + 1" by simp
qed

lemma power_int_floor_log2_le:
  assumes "x \<noteq> 0"
  shows "2 powi \<lfloor>log 2 \<bar>x\<bar>\<rfloor> \<le> \<bar>x\<bar>"
proof -
  have x: "0 < \<bar>x\<bar>" using assms by simp
  have "of_int \<lfloor>log 2 \<bar>x\<bar>\<rfloor> \<le> log 2 \<bar>x\<bar>" by simp
  then have "2 powr of_int \<lfloor>log 2 \<bar>x\<bar>\<rfloor> \<le> \<bar>x\<bar>"
    using x by (subst powr_le_iff) simp_all
  then show ?thesis by (simp add: powr_real_of_int')
qed

lemma to_double_eval:
  assumes "2 powi k \<le> \<bar>x\<bar>" "\<bar>x\<bar> < 2 powi (k + 1)" "- 1022 \<le> k" "k \<le> 1022"
  shows "to_double x = Some (of_int (round_even (x / 2 powi (k - 52))) * 2 powi (k - 52))"
proof -
  have "0 < (2::real) powi k" by simp
  with assms(1) have "0 < \<bar>x\<bar>" by linarith
  then have x: "x \<noteq> 0" by simp
  have e: "double_exponent x = k - 52"
    using floor_log2_eqI[OF assms(1,2)] assms(3) by (simp add: double_exponent_def)
  have "\<bar>x\<bar> < 2 powi 1023"
    using assms(2,4) power_int_increasing[of "k + 1" 1023 "2::real"] by simp
  also have "(2::real) powi 1023 \<le> double_overflow"
    by (simp add: double_overflow_def)
  finally have "\<not> double_overflow \<le> \<bar>x\<bar>" by simp
  then show ?thesis using x e by (simp add: to_double_def)
qed

lemma to_double_error:
  assumes "to_double x = Some y"
  shows "\<bar>y - x\<bar> \<le> \<bar>x\<bar> / 2 ^ 53 + 1 / 2 ^ 1075"
proof (cases "x = 0")
  case True
  then show ?thesis using assms by (simp add: to_double_def)
next
  case False
  define e where "e = double_exponent x"
  define u :: real where "u = 2 powi e"
  have u: "0 < u" by (simp add: u_def)
  have y: "y = of_int (round_even (x / u)) * u"
    using assms False by (auto simp: to_double_def e_def u_def split: if_splits)
  have "y - x = (of_int (round_even (x / u)) - x / u) * u"
    using u by (simp add: y left_diff_distrib)
  then have "\<bar>y - x\<bar> = \<bar>of_int (round_even (x / u)) - x / u\<bar> * u"
    using u by (simp add: abs_mult)
  also have "\<dots> \<le> 1 / 2 * u"
    using round_even_error[of "x / u"] u by (intro mult_right_mono) simp_all
  finally have 1: "\<bar>y - x\<bar> \<le> u / 2" by simp
  have "u \<le> \<bar>x\<bar> / 2 ^ 52 \<or> u = 1 / 2 ^ 1074"
  proof (cases "\<lfloor>log 2 \<bar>x\<bar>\<rfloor> - 52 \<ge> - 1074")
    case True
    then have "e = \<lfloor>log 2 \<bar>x\<bar>\<rfloor> - 52" by (simp add: e_def double_exponent_def)
    then have "u = 2 powi \<lfloor>log 2 \<bar>x\<bar>\<rfloor> / 2 ^ 52"
      by (simp add: u_def power_int_diff)
    then show ?thesis using power_int_floor_log2_le[OF False] by (simp add: divide_right_mono)
  next
    case False
    then have "e = - 1074" by (simp add: e_def double_exponent_def)
    then show ?thesis by (simp add: u_def power_int_minus field_simps)
  qed
  then have "u / 2 \<le> \<bar>x\<bar> / 2 ^ 53 + 1 / 2 ^ 1075"
  proof
    assume "u \<le> \<bar>x\<bar> / 2 ^ 52"
    then have "u / 2 \<le> \<bar>x\<bar> / 2 ^ 53" by simp
    moreover have "0 \<le> (1::real) / 2 ^ 1075" by simp
    ultimately show ?thesis by linarith
  next
    assume "u = 1 / 2 ^ 1074"
    then have "u / 2 = 1 / 2 ^ 1075" by simp
    then show ?thesis by simp
  qed
  with 1 show ?thesis by linarith
qed


lemma to_double_finite: "\<bar>x\<bar> \<le> 2 \<Longrightarrow> \<exists>y. to_double x = Some y"
  by (simp add: to_double_def double_overflow_def)

lemma double_sizes_bound:
  assumes s: "0 \<le> s" "s \<le> 1" and p: "0 \<le> p" "p \<le> 1"
  shows "\<exists>c1 c2 sm. double_sizes s p = Some (c1, c2) \<and>
     \<bar>c1 - s * p\<bar> \<le> 3 * s / 2 ^ 53 + 1 / 2 ^ 1073 \<and>
     \<bar>c2 - s * (1 - p)\<bar> \<le> 3 * s / 2 ^ 53 + 1 / 2 ^ 1073 \<and>
     \<bar>c1 + c2 - s\<bar> \<le> 3 * s / 2 ^ 53 + 1 / 2 ^ 1073 \<and>
     to_double (c1 + c2) = Some sm \<and>
     \<bar>sm - s\<bar> \<le> 5 * s / 2 ^ 53 + 1 / 2 ^ 1072"
proof -
  define u :: real where "u = 1 / 2 ^ 53"
  define h :: real where "h = 1 / 2 ^ 1075"
  have u: "0 < u" "u + h \<le> 1" and h: "0 < h" by (simp_all add: u_def h_def)
  have sp: "0 \<le> s * p" "s * p \<le> 1" using s p by (simp_all add: mult_le_one)
  from to_double_finite[of "s * p"] sp obtain c1 where c1: "to_double (s * p) = Some c1"
    by auto
  from to_double_finite[of "1 - p"] p obtain t where t: "to_double (1 - p) = Some t"
    by auto
  define X where "X = s * p * u"
  define Y where "Y = s * (1 - p) * u"
  define Z where "Z = s * u * (u + h)"
  have XY: "X + Y = s * u" by (simp add: X_def Y_def algebra_simps)
  have X0: "0 \<le> X" and Y0: "0 \<le> Y" using s p u by (simp_all add: X_def Y_def)
  have Z1: "0 \<le> Z" "Z \<le> s * u"
  proof -
    show "0 \<le> Z" using s u h by (simp add: Z_def)
    have "s * u * (u + h) \<le> s * u * 1"
      using s u by (intro mult_left_mono) simp_all
    then show "Z \<le> s * u" by (simp add: Z_def)
  qed
  have e1: "\<bar>c1 - s * p\<bar> \<le> X + h"
    using to_double_error[OF c1] sp by (simp add: X_def u_def h_def)
  have et: "\<bar>t - (1 - p)\<bar> \<le> (1 - p) * u + h"
    using to_double_error[OF t] p by (simp add: u_def h_def)
  have "(1 - p) * u \<le> 1 * u" using p u by (intro mult_right_mono) simp_all
  then have "(1 - p) * u \<le> u" by simp
  with et p have t2: "\<bar>t\<bar> \<le> (1 - p) + (u + h)" by linarith
  with p u have "\<bar>t\<bar> \<le> 2" by linarith
  then have "s * \<bar>t\<bar> \<le> 1 * 2"
    using s by (intro mult_mono) simp_all
  then have "\<bar>s * t\<bar> \<le> 2"
    using s by (simp add: abs_mult)
  from to_double_finite[OF this] obtain c2 where c2: "to_double (s * t) = Some c2"
    by auto
  have ds: "double_sizes s p = Some (c1, c2)"
    by (simp add: double_sizes_def c1 t c2)
  have "s * \<bar>t\<bar> \<le> s * ((1 - p) + (u + h))"
    using t2 s by (intro mult_left_mono) simp_all
  then have "s * \<bar>t\<bar> * u \<le> s * ((1 - p) + (u + h)) * u"
    using u by (intro mult_right_mono) simp_all
  also have "\<dots> = Y + Z" by (simp add: Y_def Z_def algebra_simps)
  finally have stu: "s * \<bar>t\<bar> * u \<le> Y + Z" .
  have e2: "\<bar>c2 - s * t\<bar> \<le> Y + Z + h"
    using to_double_error[OF c2] s stu by (simp add: abs_mult u_def h_def)
  have "s * \<bar>t - (1 - p)\<bar> \<le> s * ((1 - p) * u + h)"
    using et s by (intro mult_left_mono) simp_all
  also have "\<dots> = Y + s * h" by (simp add: Y_def algebra_simps)
  also have "\<dots> \<le> Y + h" using s h by (simp add: mult_left_le_one_le)
  finally have "s * \<bar>t - (1 - p)\<bar> \<le> Y + h" .
  moreover have "\<bar>s * t - s * (1 - p)\<bar> = s * \<bar>t - (1 - p)\<bar>"
    using s by (simp add: abs_mult right_diff_distrib[symmetric])
  ultimately have e3: "\<bar>s * t - s * (1 - p)\<bar> \<le> Y + h" by simp
  have b2: "\<bar>c2 - s * (1 - p)\<bar> \<le> 2 * Y + Z + 2 * h"
    using e2 e3 by linarith
  have B: "3 * s / 2 ^ 53 + 1 / 2 ^ 1073 = 3 * (s * u) + 4 * h"
    by (simp add: u_def h_def)
  have B': "5 * s / 2 ^ 53 + 1 / 2 ^ 1072 = 5 * (s * u) + 8 * h"
    by (simp add: u_def h_def)
  have split: "s = s * p + s * (1 - p)" by (simp add: algebra_simps)
  have "\<bar>c1 - s * p\<bar> \<le> 3 * (s * u) + 4 * h"
    using e1 XY X0 Y0 Z1 h by linarith
  moreover have "\<bar>c2 - s * (1 - p)\<bar> \<le> 3 * (s * u) + 4 * h"
    using b2 XY X0 Y0 Z1 h by linarith
  moreover have sumb: "\<bar>c1 + c2 - s\<bar> \<le> 3 * (s * u) + 4 * h"
  proof -
    have "\<bar>c1 + c2 - s\<bar> = \<bar>(c1 - s * p) + (c2 - s * (1 - p))\<bar>"
      by (subst split) (simp add: algebra_simps)
    also have "\<dots> \<le> \<bar>c1 - s * p\<bar> + \<bar>c2 - s * (1 - p)\<bar>" by (rule abs_triangle_ineq)
    finally show ?thesis using e1 b2 XY X0 Y0 Z1 h by linarith
  qed
  moreover have "\<exists>sm. to_double (c1 + c2) = Some sm \<and> \<bar>sm - s\<bar> \<le> 5 * (s * u) + 8 * h"
  proof -
    have su0: "0 \<le> s * u" using s u by simp
    have "s * u \<le> 1 * u" using s u by (intro mult_right_mono) simp_all
    then have su1: "s * u \<le> u" by simp
    have small: "3 * u + 4 * h \<le> 1" by (simp add: u_def h_def)
    have mag: "\<bar>c1 + c2\<bar> \<le> s + (3 * (s * u) + 4 * h)" using sumb s by linarith
    with s su1 small have "\<bar>c1 + c2\<bar> \<le> 2" by linarith
    from to_double_finite[OF this] obtain sm where sm: "to_double (c1 + c2) = Some sm"
      by auto
    have "\<bar>c1 + c2\<bar> * u \<le> (s + (3 * (s * u) + 4 * h)) * u"
      using mag u by (intro mult_right_mono) simp_all
    also have "\<dots> = s * u + (s * u) * (3 * u) + h * (4 * u)"
      by (simp add: algebra_simps)
    also have "\<dots> \<le> s * u + (s * u) * 1 + h * 1"
    proof -
      have "(s * u) * (3 * u) \<le> (s * u) * 1"
        using su0 by (intro mult_left_mono) (simp_all add: u_def)
      moreover have "h * (4 * u) \<le> h * 1"
        using h by (intro mult_left_mono) (simp_all add: u_def)
      ultimately show ?thesis by linarith
    qed
    finally have "\<bar>c1 + c2\<bar> * u \<le> 2 * (s * u) + h" by simp
    moreover have "\<bar>sm - (c1 + c2)\<bar> \<le> \<bar>c1 + c2\<bar> * u + h"
      using to_double_error[OF sm] by (simp add: u_def h_def)
    ultimately have "\<bar>sm - s\<bar> \<le> 5 * (s * u) + 8 * h"
      using sumb h by linarith
    with sm show ?thesis by blast
  qed
  ultimately show ?thesis using ds unfolding B B' by blast
qed

lemma double_of_tenth: "to_double (1 / 10) = Some tenth"
  using to_double_eval[of "- 4" "1 / 10"]
  by (simp add: round_even_def Let_def power_int_minus tenth_def)

lemma double_of_fifth: "to_double (2 / 10) = Some fifth"
  using to_double_eval[of "- 3" "2 / 10"]
  by (simp add: round_even_def Let_def power_int_minus fifth_def)

lemma double_tenth_times_fifth:
  "to_double (tenth * fifth) = Some (5764607523034236 / 2 ^ 58)"
  using to_double_eval[of "- 6" "tenth * fifth"]
  by (simp add: round_even_def Let_def power_int_minus tenth_def fifth_def)

lemma double_one_minus_fifth:
  "to_double (1 - fifth) = Some (7205759403792794 / 2 ^ 53)"
  using to_double_eval[of "- 1" "1 - fifth"]
  by (simp add: round_even_def Let_def power_int_minus fifth_def)

lemma double_tenth_times_rest:
  "to_double (tenth * (7205759403792794 / 2 ^ 53)) = Some (5764607523034236 / 2 ^ 56)"
  using to_double_eval[of "- 4" "tenth * (7205759403792794 / 2 ^ 53)"]
  by (simp add: round_even_def Let_def power_int_minus tenth_def)

lemma double_sum_of_sizes:
  "to_double (5764607523034236 / 2 ^ 58 + 5764607523034236 / 2 ^ 56)
     = Some (7205759403792795 / 2 ^ 56)"
  using to_double_eval[of "- 4" "5764607523034236 / 2 ^ 58 + 5764607523034236 / 2 ^ 56"]
  by (simp add: round_even_def Let_def power_int_minus)

lemma double_one: "to_double 1 = Some 1"
  using to_double_eval[of 0 1] by (simp add: round_even_def Let_def power_int_minus)

lemma double_zero: "to_double 0 = Some 0"
  by (simp add: to_double_def)

lemma double_sizes_sprout: "double_sizes 1 0 = Some (0, 1)"
  by (simp add: double_sizes_def double_zero double_one)

lemma power_overflow_example: "py_pow (1 / 10) (- 400) = Inl OverflowError"
proof -
  have "(1 / 10 :: real) powr (- 400) = 10 ^ 400"
    by (simp add: powr_minus powr_numeral inverse_eq_divide power_one_over field_simps)
  then show ?thesis by (simp add: py_pow_def double_overflow_def)
qed

lemma negative_width_rejected:
  "pygame_draw_line_raises (last (surface (draw (255, 255, 255) p1 p2 (- 1) st)))
     = Some ValueError"
  by (simp add: draw_def pygame_draw_line_raises_def py_int_def Let_def)

lemma huge_width_rejected:
  "pygame_draw_line_raises (last (surface (draw (255, 255, 255) p1 p2 (10 ^ 10) st)))
     = Some OverflowError"
  by (simp add: draw_def pygame_draw_line_raises_def py_int_def Let_def)

section \<open>Size conservation (C1)\<close>

text \<open>C1, as stated, fails: the program computes the two sizes in double precision, and
  the rounded sizes need not add up to the parent's size. With the doubles nearest to
  \<open>0.1\<close> and \<open>0.2\<close> as the parent's size and the proportion, the two sizes are
  \<open>0.020000000000000004\<close> and \<open>0.08000000000000002\<close>; their sum, exact or rounded to a
  double (\<open>0.10000000000000002\<close>), is not the parent's size.\<close>

theorem double_sizes_do_not_add_up:
  "to_double (1 / 10) = Some tenth \<and> to_double (2 / 10) = Some fifth \<and>
   double_sizes tenth fifth = Some (5764607523034236 / 2 ^ 58, 5764607523034236 / 2 ^ 56) \<and>
   5764607523034236 / 2 ^ 58 + 5764607523034236 / 2 ^ 56 \<noteq> tenth \<and>
   to_double (5764607523034236 / 2 ^ 58 + 5764607523034236 / 2 ^ 56)
     = Some (7205759403792795 / 2 ^ 56) \<and>
   7205759403792795 / 2 ^ 56 \<noteq> tenth"
proof -
  have "double_sizes tenth fifth
      = Some (5764607523034236 / 2 ^ 58, 5764607523034236 / 2 ^ 56)"
    by (simp only: double_sizes_def double_tenth_times_fifth double_one_minus_fifth
        double_tenth_times_rest option.case)
  moreover have "5764607523034236 / 2 ^ 58 + 5764607523034236 / 2 ^ 56 \<noteq> tenth"
    "7205759403792795 / 2 ^ 56 \<noteq> tenth"
    by (simp_all add: tenth_def)
  ultimately show ?thesis
    using double_of_tenth double_of_fifth double_sum_of_sizes by simp
qed

text \<open>C1, amended. Every split that \<^verbatim>\<open>branch_split\<close> performs on a parent of size \<open>s\<close> in
  \<open>[0, 1]\<close> clears the parent's slot and appends two children of sizes \<open>s * p\<close> and
  \<open>s * (1 - p)\<close>, where \<open>p\<close> is the proportion derived from the sample \<open>gauss(0, 0.1)\<close>;
  \<open>p\<close> lies in \<open>[0, 1]\<close>, and in exact arithmetic the two sizes add up to \<open>s\<close>. In
  double precision, as the program computes them, each size is within
  \<open>3 * s / 2^53 + 2^-1073\<close> of its exact value, the two sizes add up to \<open>s\<close> within
  the same bound, and their sum rounded to a double is within \<open>5 * s / 2^53 + 2^-1072\<close>
  of \<open>s\<close>: the size is conserved within rounding, not exactly.\<close>

theorem branch_split_sizes_within_rounding:
  assumes "branch_split zs ps idx pt s d st = (None, st')" and "0 \<le> s" "s \<le> 1"
  shows "\<exists>c1 c2 d1 d2 sm.
    branches st' = (branches st)[idx := None] @ [Some c1, Some c2] \<and>
    branch_size c1 = s * split_proportion (zs (gauss_calls st) / 10) \<and>
    branch_size c2 = s * (1 - split_proportion (zs (gauss_calls st) / 10)) \<and>
    branch_size c1 + branch_size c2 = s \<and>
    0 \<le> split_proportion (zs (gauss_calls st) / 10) \<and>
    split_proportion (zs (gauss_calls st) / 10) \<le> 1 \<and>
    double_sizes s (split_proportion (zs (gauss_calls st) / 10)) = Some (d1, d2) \<and>
    \<bar>d1 - branch_size c1\<bar> \<le> 3 * s / 2 ^ 53 + 1 / 2 ^ 1073 \<and>
    \<bar>d2 - branch_size c2\<bar> \<le> 3 * s / 2 ^ 53 + 1 / 2 ^ 1073 \<and>
    \<bar>d1 + d2 - s\<bar> \<le> 3 * s / 2 ^ 53 + 1 / 2 ^ 1073 \<and>
    to_double (d1 + d2) = Some sm \<and>
    \<bar>sm - s\<bar> \<le> 5 * s / 2 ^ 53 + 1 / 2 ^ 1072"
proof -
  define q where "q = split_proportion (zs (gauss_calls st) / 10)"
  from branch_split_ok[OF assms(1)] obtain c1 c2 where
    c: "branches st' = (branches st)[idx := None] @ [Some c1, Some c2]"
      "branch_size c1 = s * q" "branch_size c2 = s * (1 - q)"
    unfolding q_def by blast
  have sum: "branch_size c1 + branch_size c2 = s"
    unfolding c(2,3) by (simp add: algebra_simps)
  have q: "0 \<le> q" "q \<le> 1" unfolding q_def using split_proportion_range by auto
  from double_sizes_bound[OF assms(2,3) q] obtain d1 d2 sm where
    "double_sizes s q = Some (d1, d2)"
    "\<bar>d1 - s * q\<bar> \<le> 3 * s / 2 ^ 53 + 1 / 2 ^ 1073"
    "\<bar>d2 - s * (1 - q)\<bar> \<le> 3 * s / 2 ^ 53 + 1 / 2 ^ 1073"
    "\<bar>d1 + d2 - s\<bar> \<le> 3 * s / 2 ^ 53 + 1 / 2 ^ 1073"
    "to_double (d1 + d2) = Some sm"
    "\<bar>sm - s\<bar> \<le> 5 * s / 2 ^ 53 + 1 / 2 ^ 1072"
    by blast
  with c sum q show ?thesis unfolding q_def[symmetric] by (metis (no_types))
qed

text \<open>The first split of the tree \<open>sprout\<close>: the proportion is 0, the sizes are 0 and 1,
  in exact arithmetic and in double precision.\<close>

theorem branch_split_sizes_within_rounding_witness:
  "branch_split zeros presets 0 (15, 0) 1 0 sprout = (None, forked\<lparr>surface := []\<rparr>) \<and>
   (0::real) \<le> 1 \<and>
   map (map_option branch_size) (branches (forked\<lparr>surface := []\<rparr>)) = [None, Some 0, Some 1] \<and>
   double_sizes 1 (split_proportion (zeros (gauss_calls sprout) / 10)) = Some (0, 1)"
proof -
  have s: "branch_split zeros presets 0 (15, 0) 1 0 sprout = (None, forked\<lparr>surface := []\<rparr>)"
    using split_sprout by (simp add: forked_def twig_def)
  note t = branch_split_sizes_within_rounding[OF s]
  have "split_proportion (zeros (gauss_calls sprout) / 10) = 0"
    by (simp add: zeros_def split_proportion_def)
  then show ?thesis using s t double_sizes_sprout by (simp add: forked_def twig_def)
qed

section \<open>Proportion folding (C4)\<close>

text \<open>C4. For every real sample \<open>x\<close> the derived proportion lies in \<open>[0, 1]\<close>; it is
  obtained by folding a negative \<open>x\<close> to \<open>1 + x\<close> and clamping the result to \<open>[0, 1]\<close>.
  The sample \<open>-0.05\<close> gives \<open>0.95\<close>, \<open>1.3\<close> gives \<open>1\<close> and \<open>-1.3\<close> gives \<open>0\<close>.\<close>

theorem split_proportion_folds_and_clamps:
  "0 \<le> split_proportion x \<and> split_proportion x \<le> 1 \<and>
   split_proportion x = max 0 (min 1 (if x < 0 then 1 + x else x)) \<and>
   split_proportion (- (5 / 100)) = 95 / 100 \<and>
   split_proportion (13 / 10) = 1 \<and>
   split_proportion (- (13 / 10)) = 0"
  by (simp add: split_proportion_def Let_def max.commute min.commute)

section \<open>The width-dimming rule of drawing (C5)\<close>

text \<open>C5. A call of \<^verbatim>\<open>draw\<close> adds one line to the surface. With a width below 1 every
  colour channel is multiplied by the width and the line is drawn with width 1; otherwise
  the colour is unchanged and the drawn width is the integer part of the width. White
  with width \<open>0.4\<close> gives \<open>(102, 102, 102)\<close> and width 1; width \<open>2.7\<close> gives white and
  width 2.\<close>

theorem draw_width_rule:
  "surface (draw (r, g, b) p1 p2 w st) = surface st @
     [if w < 1
      then \<lparr> line_color = (r * w, g * w, b * w), line_start = p1, line_end = p2,
             line_width = 1 \<rparr>
      else \<lparr> line_color = (r, g, b), line_start = p1, line_end = p2,
             line_width = py_int w \<rparr>] \<and>
   (if w < 1 then True else py_int w = \<lfloor>w\<rfloor> \<and> 1 \<le> py_int w) \<and>
   surface (draw (255, 255, 255) p1 p2 (4 / 10) st) = surface st @
     [\<lparr> line_color = (102, 102, 102), line_start = p1, line_end = p2, line_width = 1 \<rparr>] \<and>
   surface (draw (255, 255, 255) p1 p2 (27 / 10) st) = surface st @
     [\<lparr> line_color = (255, 255, 255), line_start = p1, line_end = p2, line_width = 2 \<rparr>]"
  by (simp add: draw_def Let_def py_int_def)

section \<open>Activation clears the slot only when the branch splits (C2)\<close>

text \<open>C2, as stated, fails: a branch whose size is at or below \<open>MINIMUM_BRANCH_SIZE\<close> is
  drawn but \<^verbatim>\<open>branch_split\<close> is not called, so its slot keeps the branch. After the first
  activation of a run under \<open>zeros\<close> the tree is \<open>forked\<close>; its slot 1 holds \<open>twig\<close>, of
  size 0, and activating \<open>twig\<close> leaves slot 1 populated.\<close>

theorem activate_small_branch_keeps_slot:
  "generate_tree_capped 1 zeros (0, 0) 0 presets blank = (None, forked) \<and>
   branches forked ! 1 = Some twig \<and> index twig = 1 \<and>
   branch_size twig \<le> MINIMUM_BRANCH_SIZE \<and>
   fst (activate zeros presets twig forked) = None \<and>
   branches (snd (activate zeros presets twig forked)) ! 1 = Some twig \<and>
   branches (snd (activate zeros presets twig forked)) ! 1 \<noteq> None"
proof -
  have "branches forked ! 1 = Some twig" by (simp add: forked_def)
  moreover have "index twig = 1" "branch_size twig \<le> MINIMUM_BRANCH_SIZE"
    by (simp_all add: twig_def MINIMUM_BRANCH_SIZE_def)
  ultimately show ?thesis using run_zeros_1 by (simp add: activate_twig)
qed

text \<open>C2, amended. Let slot \<open>i\<close> hold a branch whose stored index is \<open>i\<close>, and let its
  activation return normally. If the size of the branch exceeds \<open>MINIMUM_BRANCH_SIZE\<close>,
  slot \<open>i\<close> becomes \<open>None\<close> and exactly two branches are appended at the end of the list;
  otherwise the list is unchanged: nothing is appended and slot \<open>i\<close> still holds the
  branch.\<close>

theorem activate_clears_slot_when_splitting:
  assumes "i < length (branches st)" "branches st ! i = Some b" "index b = i"
    and "activate zs ps b st = (None, st')"
  shows "if branch_size b > MINIMUM_BRANCH_SIZE
     then (\<exists>c1 c2. branches st' = (branches st)[i := None] @ [Some c1, Some c2]) \<and>
          branches st' ! i = None \<and> length (branches st') = length (branches st) + 2
     else branches st' = branches st \<and> branches st' ! i = Some b"
proof (cases "branch_size b > MINIMUM_BRANCH_SIZE")
  case True
  with activate_step[OF assms] obtain c1 c2 where
    c: "branches st' = (branches st)[i := None] @ [Some c1, Some c2]" by auto
  then have "branches st' ! i = None" "length (branches st') = length (branches st) + 2"
    using assms(1) by (simp_all add: nth_append)
  with c True show ?thesis by auto
next
  case False
  with activate_step[OF assms] assms(2) show ?thesis by simp
qed

text \<open>Both cases at concrete inputs: the seed of \<open>sprout\<close> splits, \<open>twig\<close> does not.\<close>

theorem activate_clears_slot_when_splitting_witness:
  "0 < length (branches sprout) \<and>
   branches sprout ! 0 = Some \<lparr> index = 0, pos = (0, 0), branch_size = 1,
       branch_length = 15, branch_direction = 0 \<rparr> \<and>
   activate zeros presets \<lparr> index = 0, pos = (0, 0), branch_size = 1,
       branch_length = 15, branch_direction = 0 \<rparr> sprout = (None, forked) \<and>
   branches forked ! 0 = None \<and> length (branches forked) = length (branches sprout) + 2 \<and>
   1 < length (branches forked) \<and> branches forked ! 1 = Some twig \<and>
   branches (snd (activate zeros presets twig forked)) = branches forked"
proof -
  have a: "0 < length (branches sprout)"
    "branches sprout ! 0 = Some \<lparr> index = 0, pos = (0, 0), branch_size = 1,
       branch_length = 15, branch_direction = 0 \<rparr>"
    by (simp_all add: sprout_def)
  have b: "1 < length (branches forked)" "branches forked ! 1 = Some twig" "index twig = 1"
    by (simp_all add: forked_def twig_def)
  have s: "\<not> branch_size twig > MINIMUM_BRANCH_SIZE"
    "branch_size \<lparr> index = 0, pos = (0, 0), branch_size = 1,
       branch_length = 15, branch_direction = 0 \<rparr> > MINIMUM_BRANCH_SIZE"
    by (simp_all add: twig_def MINIMUM_BRANCH_SIZE_def)
  show ?thesis
    using activate_clears_slot_when_splitting[OF a(1) a(2) _ activate_sprout]
      activate_clears_slot_when_splitting[OF b activate_twig] a b s activate_sprout
    by (simp add: activate_twig)
qed


section \<open>The cap and the end of the list (C3)\<close>

text \<open>C3, as stated, fails in its last part: a run can make fewer activations than the
  cap although the list is not exhausted. With the width exponent \<open>-1\<close>, under \<open>zeros\<close>
  and with cap 5, the first activation draws its line and splits; the activation of
  slot 1, whose branch has size 0, raises \<^verbatim>\<open>ZeroDivisionError\<close> in
  \<^verbatim>\<open>self.branch_size ** self.parent.branch_width_factor\<close>. The exception leaves
  \<^verbatim>\<open>generate_tree\<close> with one line drawn and the slots 1 and 2 of three still populated.\<close>

theorem early_exit_before_cap_and_exhaustion:
  "generate_tree_capped 5 zeros (0, 0) 0 inverse_width_presets blank
     = (Some ZeroDivisionError, forked) \<and>
   length (surface forked) = 1 \<and> length (branches forked) = 3 \<and>
   branches forked ! 1 \<noteq> None \<and> branches forked ! 2 \<noteq> None"
  unfolding run_inverse_width by (simp add: forked_def)

text \<open>C3, amended. A run of \<^verbatim>\<open>generate_tree\<close> with cap \<open>cap\<close> activates the slots
  \<open>0, 1, ..., k - 1\<close> in ascending order for some \<open>k \<le> cap\<close>, each activation drawing one
  line, and draws at most \<open>cap\<close> lines; \<^verbatim>\<open>generate_tree\<close> itself is the run with cap
  \<open>MAX_BRANCH_COUNT\<close>. Either \<open>k = cap\<close> and the run returns normally; or \<open>k < cap\<close> is the
  length of the list, the read of slot \<open>k\<close> is out of range, and the run returns normally
  there; or the activation of the in-range slot \<open>k\<close> raises an exception other than
  \<^verbatim>\<open>IndexError\<close>, which leaves \<^verbatim>\<open>generate_tree\<close>. The third case does not occur in the
  runs of the shipped program (\<open>shipped_run\<close>): there the run makes exactly \<open>cap\<close>
  activations, or fewer when the list is exhausted first. With other presets it does
  occur: besides the power of zero above, \<open>power_overflow_example\<close> (an exponent of
  \<open>-400\<close>), \<open>negative_width_rejected\<close> and \<open>huge_width_rejected\<close> (a width of \<open>-1\<close> or
  \<open>10^10\<close>) are exceptions of an activation. From any state and index, the loop returns
  normally without a further activation when the index is at or beyond the length of
  the list.\<close>

theorem generate_tree_cap:
  "(\<exists>k st'. k \<le> cap \<and>
      activate_in_order zs ps [0..<k] (Tree_init zs ps p a st0) = (None, st') \<and>
      length (surface st') = length (surface st0) + k \<and>
      (k = cap \<and> generate_tree_capped cap zs p a ps st0 = (None, st')
       \<or> k < cap \<and> k = length (branches st') \<and>
          generate_tree_capped cap zs p a ps st0 = (None, st')
       \<or> k < cap \<and> k < length (branches st') \<and>
          (\<exists>e st''. e \<noteq> IndexError \<and> activate_slot zs ps k st' = (Some e, st'') \<and>
             generate_tree_capped cap zs p a ps st0 = (Some e, st'')))) \<and>
   length (surface (snd (generate_tree_capped cap zs p a ps st0)))
     \<le> length (surface st0) + cap \<and>
   generate_tree zs p a ps st0 = generate_tree_capped MAX_BRANCH_COUNT zs p a ps st0 \<and>
   (shipped_run zs p ps \<longrightarrow> fst (generate_tree_capped cap zs p a ps st0) = None) \<and>
   (length (branches st) \<le> i \<longrightarrow> drive zs ps cap i st = (None, st))"
proof -
  from generate_tree_run[of cap zs ps p a st0] obtain k st' where
    k: "k \<le> cap" "activate_in_order zs ps [0..<k] (Tree_init zs ps p a st0) = (None, st')"
      "length (surface st') = length (surface st0) + k"
    and inv: "slots_indexed st'" "sizes_in_unit st'" "populated_from k st'"
    and d: "k = cap \<and> generate_tree_capped cap zs p a ps st0 = (None, st')
      \<or> k < cap \<and> k = length (branches st') \<and>
          generate_tree_capped cap zs p a ps st0 = (None, st')
      \<or> k < cap \<and> k < length (branches st') \<and>
         (\<exists>e st''. e \<noteq> IndexError \<and> e \<noteq> AttributeError \<and>
            activate_slot zs ps k st' = (Some e, st'') \<and> sizes_in_unit st'' \<and>
            length (surface st'') \<le> Suc (length (surface st')) \<and>
            take (length (surface st')) (surface st'') = surface st' \<and>
            generate_tree_capped cap zs p a ps st0 = (Some e, st''))"
    by blast
  have bound: "length (surface (snd (generate_tree_capped cap zs p a ps st0)))
     \<le> length (surface st0) + cap"
    using d k(1,3) by auto
  have shipped: "fst (generate_tree_capped cap zs p a ps st0) = None" if "shipped_run zs p ps"
  proof -
    from that have ps: "ps = presets" by (simp add: shipped_run_def)
    have "fst (activate_slot zs ps k st') = None" if "k < length (branches st')"
      unfolding ps by (rule activate_slot_no_error[OF inv[unfolded ps] that presets_safe])
    with d show ?thesis by auto
  qed
  have first: "\<exists>k st'. k \<le> cap \<and>
      activate_in_order zs ps [0..<k] (Tree_init zs ps p a st0) = (None, st') \<and>
      length (surface st') = length (surface st0) + k \<and>
      (k = cap \<and> generate_tree_capped cap zs p a ps st0 = (None, st')
       \<or> k < cap \<and> k = length (branches st') \<and>
          generate_tree_capped cap zs p a ps st0 = (None, st')
       \<or> k < cap \<and> k < length (branches st') \<and>
          (\<exists>e st''. e \<noteq> IndexError \<and> activate_slot zs ps k st' = (Some e, st'') \<and>
             generate_tree_capped cap zs p a ps st0 = (Some e, st'')))"
    using k d by blast
  have "generate_tree zs p a ps st0 = generate_tree_capped MAX_BRANCH_COUNT zs p a ps st0"
    by (simp add: generate_tree_def)
  with first bound shipped drive_out_of_range show ?thesis by blast
qed

text \<open>With cap 5 under \<open>zeros\<close> and the shipped preset the run returns normally after
  exactly 5 lines; and the loop asked for slot 1 of the one-branch tree \<open>sprout\<close> returns
  at once.\<close>

theorem generate_tree_cap_witness:
  "shipped_run zeros (0, 0) presets \<and>
   fst (generate_tree_capped 5 zeros (0, 0) 0 presets blank) = None \<and>
   length (surface (snd (generate_tree_capped 5 zeros (0, 0) 0 presets blank))) = 5 \<and>
   length (surface (snd (generate_tree_capped 5 zeros (0, 0) 0 presets blank)))
     \<le> length (surface blank) + 5 \<and>
   length (branches sprout) \<le> 1 \<and> drive zeros presets 5 1 sprout = (None, sprout)"
  using generate_tree_cap[of 5 zeros presets "(0, 0)" 0 blank sprout 1] run_zeros_5
    shipped_run_zeros
  by (simp add: sprout_def)

section \<open>Children take the next free slots (C6)\<close>

text \<open>C6. Let \<open>st\<close> be the tree the loop of \<^verbatim>\<open>generate_tree\<close> has reached before iteration
  \<open>i\<close>, and let the activation of slot \<open>i\<close> return normally. Then slot \<open>i\<close> holds a branch
  whose stored index is \<open>i\<close>. If it splits, the new list is the old one with slot \<open>i\<close>
  cleared, followed by the two children: no other slot is removed, moved or changed, and
  the stored index of each child is its position, the length of the list when it is
  appended, which is greater than \<open>i\<close>. Stored indices equal positions afterwards too.
  The whole run activates the slots \<open>0, ..., k - 1\<close> in ascending order, so a slot is
  activated only after every lower slot.\<close>

theorem children_take_the_next_slots:
  assumes "activate_in_order zs ps [0..<i] (Tree_init zs ps p a st0) = (None, st)"
    and "activate_slot zs ps i st = (None, st')"
  shows "(\<exists>b. i < length (branches st) \<and> branches st ! i = Some b \<and> index b = i \<and>
       (if branch_size b > MINIMUM_BRANCH_SIZE
        then \<exists>c1 c2. branches st' = (branches st)[i := None] @ [Some c1, Some c2] \<and>
               index c1 = length (branches st) \<and> index c2 = length (branches st) + 1 \<and>
               i < index c1 \<and> i < index c2
        else branches st' = branches st)) \<and>
     slots_indexed st' \<and>
     (\<exists>k st2. k \<le> cap \<and>
        activate_in_order zs ps [0..<k] (Tree_init zs ps p a st0) = (None, st2) \<and>
        (generate_tree_capped cap zs p a ps st0 = (None, st2) \<or>
         (\<exists>e st3. activate_slot zs ps k st2 = (Some e, st3) \<and>
            generate_tree_capped cap zs p a ps st0 = (Some e, st3))))"
proof -
  from reach_inv[OF assms(1)] have inv: "slots_indexed st" "sizes_in_unit st" "populated_from i st"
    by auto
  have il: "i < length (branches st)"
  proof (rule ccontr)
    assume "\<not> i < length (branches st)"
    then have "activate_slot zs ps i st = (Some IndexError, st)"
      by (simp add: activate_slot_out_of_range)
    with assms(2) show False by simp
  qed
  from inv(3) il obtain b where b: "branches st ! i = Some b"
    unfolding populated_from_nth by (cases "branches st ! i") auto
  with inv(1) il have ib: "index b = i" unfolding slots_indexed_nth by blast
  from assms(2) b il have a: "activate zs ps b st = (None, st')"
    by (simp add: activate_slot_def)
  have split: "if branch_size b > MINIMUM_BRANCH_SIZE
        then \<exists>c1 c2. branches st' = (branches st)[i := None] @ [Some c1, Some c2] \<and>
               index c1 = length (branches st) \<and> index c2 = length (branches st) + 1 \<and>
               i < index c1 \<and> i < index c2
        else branches st' = branches st"
  proof (cases "branch_size b > MINIMUM_BRANCH_SIZE")
    case True
    with activate_step[OF il b ib a] obtain c1 c2 where
      "branches st' = (branches st)[i := None] @ [Some c1, Some c2]"
      "index c1 = length (branches st)" "index c2 = length (branches st) + 1"
      by auto
    with il True show ?thesis by auto
  next
    case False
    with activate_step[OF il b ib a] show ?thesis by simp
  qed
  from inv_step[OF inv il assms(2)] have ix': "slots_indexed st'" by simp
  from generate_tree_run[of cap zs ps p a st0] have order: "\<exists>k st2. k \<le> cap \<and>
        activate_in_order zs ps [0..<k] (Tree_init zs ps p a st0) = (None, st2) \<and>
        (generate_tree_capped cap zs p a ps st0 = (None, st2) \<or>
         (\<exists>e st3. activate_slot zs ps k st2 = (Some e, st3) \<and>
            generate_tree_capped cap zs p a ps st0 = (Some e, st3)))"
    by blast
  from il b ib split ix' order show ?thesis by blast
qed

text \<open>The first iteration under \<open>zeros\<close>: the children of the seed get indices 1 and 2.\<close>

theorem children_take_the_next_slots_witness:
  "activate_in_order zeros presets [0..<0] (Tree_init zeros presets (0, 0) 0 blank) = (None, sprout) \<and>
   activate_slot zeros presets 0 sprout = (None, forked) \<and>
   slots_indexed forked \<and>
   map (map_option index) (branches forked) = [None, Some 1, Some 2]"
proof -
  note t = children_take_the_next_slots[OF in_order_sprout_0 activate_slot_sprout, of 5]
  have "slots_indexed forked" by (rule t[THEN conjunct2, THEN conjunct1])
  moreover have "map (map_option index) (branches forked) = [None, Some 1, Some 2]"
    by (simp add: forked_def twig_def)
  ultimately show ?thesis using in_order_sprout_0 activate_slot_sprout by simp
qed

section \<open>Branch sizes (C7)\<close>

text \<open>C7, as stated, fails: a size can be 0. When the sample for the proportion is 0 (or
  at most \<open>-1\<close>, or at least 1) the proportion is 0 or 1 and one child gets size 0. Under
  \<open>zeros\<close> the first split creates children of sizes 0 and 1.\<close>

theorem zero_size_branch_created:
  "map (map_option branch_size)
     (branches (snd (generate_tree_capped 1 zeros (0, 0) 0 presets blank))) =
   [None, Some 0, Some 1]"
  unfolding run_zeros_1 by (simp add: forked_def twig_def)

text \<open>C7, amended. In the tree that a run of \<^verbatim>\<open>generate_tree\<close> ends with, for every cap,
  and in every tree the loop passes through, every branch has a size of at least 0 and
  at most 1. The seed has size exactly 1. Whenever the loop activates a slot and the
  branch \<open>b\<close> in it splits, the two children appended have the sizes
  \<open>branch_size b * p\<close> and \<open>branch_size b * (1 - p)\<close> for the proportion \<open>p\<close> of the split,
  and neither is larger than the size of \<open>b\<close>.\<close>

theorem branch_sizes_within_unit_interval:
  "sizes_in_unit (snd (generate_tree_capped cap zs p a ps st0)) \<and>
   (\<forall>x \<in> set (branches (snd (generate_tree_capped cap zs p a ps st0))).
      case x of None \<Rightarrow> True | Some b \<Rightarrow> 0 \<le> branch_size b \<and> branch_size b \<le> 1) \<and>
   (activate_in_order zs ps [0..<i] (Tree_init zs ps p a st0) = (r, st) \<longrightarrow>
      sizes_in_unit st) \<and>
   map (map_option branch_size) (branches (Tree_init zs ps p a st0)) = [Some 1] \<and>
   (activate_in_order zs ps [0..<j] (Tree_init zs ps p a st0) = (None, t) \<and>
    activate_slot zs ps j t = (None, t') \<longrightarrow>
      (\<exists>b. branches t ! j = Some b \<and> 0 \<le> branch_size b \<and> branch_size b \<le> 1 \<and>
         (if branch_size b > MINIMUM_BRANCH_SIZE
          then \<exists>c1 c2. branches t' = (branches t)[j := None] @ [Some c1, Some c2] \<and>
                 branch_size c1 = branch_size b * split_proportion (zs (gauss_calls t) / 10) \<and>
                 branch_size c2
                   = branch_size b * (1 - split_proportion (zs (gauss_calls t) / 10)) \<and>
                 branch_size c1 \<le> branch_size b \<and> branch_size c2 \<le> branch_size b
          else branches t' = branches t)))"
proof -
  have reach: "sizes_in_unit st"
    if "activate_in_order zs ps [0..<i] (Tree_init zs ps p a st0) = (r, st)"
  proof -
    have inv: "slots_indexed (Tree_init zs ps p a st0)" "sizes_in_unit (Tree_init zs ps p a st0)"
      "populated_from 0 (Tree_init zs ps p a st0)"
      by (rule Tree_init_inv)+
    from in_order_inv[OF inv _ that] show ?thesis by simp
  qed
  from generate_tree_run[of cap zs ps p a st0]
  have sz: "sizes_in_unit (snd (generate_tree_capped cap zs p a ps st0))"
    by auto
  then have all: "\<forall>x \<in> set (branches (snd (generate_tree_capped cap zs p a ps st0))).
      case x of None \<Rightarrow> True | Some b \<Rightarrow> 0 \<le> branch_size b \<and> branch_size b \<le> 1"
    unfolding sizes_in_unit_def list_all_iff .
  have seed: "map (map_option branch_size) (branches (Tree_init zs ps p a st0)) = [Some 1]"
    by (simp add: Tree_init_fields)
  have split: "\<exists>b. branches t ! j = Some b \<and> 0 \<le> branch_size b \<and> branch_size b \<le> 1 \<and>
         (if branch_size b > MINIMUM_BRANCH_SIZE
          then \<exists>c1 c2. branches t' = (branches t)[j := None] @ [Some c1, Some c2] \<and>
                 branch_size c1 = branch_size b * split_proportion (zs (gauss_calls t) / 10) \<and>
                 branch_size c2
                   = branch_size b * (1 - split_proportion (zs (gauss_calls t) / 10)) \<and>
                 branch_size c1 \<le> branch_size b \<and> branch_size c2 \<le> branch_size b
          else branches t' = branches t)"
    if r: "activate_in_order zs ps [0..<j] (Tree_init zs ps p a st0) = (None, t)"
      and act: "activate_slot zs ps j t = (None, t')"
  proof -
    from reach_inv[OF r] have inv: "slots_indexed t" "sizes_in_unit t" "populated_from j t"
      by auto
    have jl: "j < length (branches t)"
    proof (rule ccontr)
      assume "\<not> j < length (branches t)"
      then have "activate_slot zs ps j t = (Some IndexError, t)"
        by (simp add: activate_slot_out_of_range)
      with act show False by simp
    qed
    from inv(3) jl obtain b where b: "branches t ! j = Some b"
      unfolding populated_from_nth by (cases "branches t ! j") auto
    with inv(1) jl have jb: "index b = j" unfolding slots_indexed_nth by blast
    from b jl inv(2) have sb: "0 \<le> branch_size b" "branch_size b \<le> 1"
      unfolding sizes_in_unit_nth by blast+
    from act b jl have a: "activate zs ps b t = (None, t')"
      by (simp add: activate_slot_def)
    define q where "q = split_proportion (zs (gauss_calls t) / 10)"
    have q: "0 \<le> q" "q \<le> 1" unfolding q_def using split_proportion_range by auto
    have le: "branch_size b * q \<le> branch_size b" "branch_size b * (1 - q) \<le> branch_size b"
      using sb(1) q by (simp_all add: mult_left_le)
    show ?thesis
    proof (cases "branch_size b > MINIMUM_BRANCH_SIZE")
      case True
      with activate_step[OF jl b jb a] obtain c1 c2 where
        "branches t' = (branches t)[j := None] @ [Some c1, Some c2]"
        "branch_size c1 = branch_size b * q" "branch_size c2 = branch_size b * (1 - q)"
        unfolding q_def by auto
      with le b sb True show ?thesis unfolding q_def by auto
    next
      case False
      with activate_step[OF jl b jb a] b sb show ?thesis by simp
    qed
  qed
  from sz all reach seed split show ?thesis by blast
qed

text \<open>Under \<open>zeros\<close>: the seed of \<open>sprout\<close> has size 1, and its activation appends
  children of sizes 0 and 1.\<close>

theorem branch_sizes_within_unit_interval_witness:
  "sizes_in_unit forked \<and>
   activate_in_order zeros presets [0..<0] (Tree_init zeros presets (0, 0) 0 blank)
     = (None, sprout) \<and> sizes_in_unit sprout \<and>
   activate_slot zeros presets 0 sprout = (None, forked) \<and>
   map (map_option branch_size) (branches sprout) = [Some 1] \<and>
   map (map_option branch_size) (branches forked) = [None, Some 0, Some 1]"
proof -
  note t = branch_sizes_within_unit_interval[of 1 zeros "(0, 0)" 0 presets blank 0 None sprout
      0 sprout forked, unfolded run_zeros_1]
  from t have "sizes_in_unit forked" by simp
  moreover from t in_order_sprout_0 have "sizes_in_unit sprout" by blast
  moreover have "map (map_option branch_size) (branches sprout) = [Some 1]"
    "map (map_option branch_size) (branches forked) = [None, Some 0, Some 1]"
    by (simp_all add: sprout_def forked_def twig_def)
  ultimately show ?thesis using in_order_sprout_0 activate_slot_sprout by simp
qed

section \<open>Split directions (C8)\<close>



section \<open>No dead slot is ever activated (C10)\<close>

text \<open>C10, as stated, fails in its last part: the loop body can raise an exception that is
  not the out-of-range read. With the length exponent \<open>-1\<close> and a proportion sample of 0,
  the first child has size 0 and \<^verbatim>\<open>branch_1_size ** self.branch_length_factor\<close> raises
  \<^verbatim>\<open>ZeroDivisionError\<close>, which the handler does not catch.\<close>

theorem zero_to_negative_power_leaves_generate_tree:
  "fst (generate_tree_capped 1 zeros (0, 0) 0 inverse_length_presets blank)
     = Some ZeroDivisionError"
  unfolding run_inverse_length by simp

text \<open>C10, amended. In every run of \<^verbatim>\<open>generate_tree\<close>, with any preset, whenever the loop
  reads an in-range slot \<open>i\<close>, the slot is not \<^verbatim>\<open>None\<close>: no \<^verbatim>\<open>AttributeError\<close> is raised,
  neither by an activation nor by the run, and an in-range activation raises no
  \<^verbatim>\<open>IndexError\<close>. In the runs of the shipped program (\<open>shipped_run\<close>) the run returns
  normally, and the only exception the loop body raises is the \<^verbatim>\<open>IndexError\<close> of a read
  at or beyond the end of the list. With other presets an activation can raise
  \<^verbatim>\<open>ZeroDivisionError\<close> or \<^verbatim>\<open>OverflowError\<close> in a power, and \<^verbatim>\<open>ValueError\<close> or
  \<^verbatim>\<open>OverflowError\<close> in \<^verbatim>\<open>pygame.draw.line\<close>.\<close>

theorem dead_slot_never_activated:
  "fst (generate_tree_capped cap zs p a ps st0) \<noteq> Some AttributeError \<and>
   (activate_in_order zs ps [0..<i] (Tree_init zs ps p a st0) = (None, st) \<and>
      i < length (branches st) \<longrightarrow>
        branches st ! i \<noteq> None \<and>
        fst (activate_slot zs ps i st) \<noteq> Some AttributeError \<and>
        fst (activate_slot zs ps i st) \<noteq> Some IndexError) \<and>
   (shipped_run zs p ps \<longrightarrow>
      fst (generate_tree_capped cap zs p a ps st0) = None \<and>
      (activate_in_order zs ps [0..<i] (Tree_init zs ps p a st0) = (None, st) \<longrightarrow>
         fst (activate_slot zs ps i st) = None \<or>
         length (branches st) \<le> i \<and> activate_slot zs ps i st = (Some IndexError, st)))"
proof -
  from generate_tree_run[of cap zs ps p a st0] obtain k st' where
    k: "slots_indexed st'" "sizes_in_unit st'" "populated_from k st'"
    and d: "k = cap \<and> generate_tree_capped cap zs p a ps st0 = (None, st')
      \<or> k < cap \<and> k = length (branches st') \<and>
         generate_tree_capped cap zs p a ps st0 = (None, st')
      \<or> k < cap \<and> k < length (branches st') \<and>
         (\<exists>e st''. e \<noteq> IndexError \<and> e \<noteq> AttributeError \<and>
            activate_slot zs ps k st' = (Some e, st'') \<and> sizes_in_unit st'' \<and>
            length (surface st'') \<le> Suc (length (surface st')) \<and>
            take (length (surface st')) (surface st'') = surface st' \<and>
            generate_tree_capped cap zs p a ps st0 = (Some e, st''))"
    by blast
  have A: "fst (generate_tree_capped cap zs p a ps st0) \<noteq> Some AttributeError"
    using d by auto
  have B: "branches st ! i \<noteq> None \<and>
        fst (activate_slot zs ps i st) \<noteq> Some AttributeError \<and>
        fst (activate_slot zs ps i st) \<noteq> Some IndexError"
    if r: "activate_in_order zs ps [0..<i] (Tree_init zs ps p a st0) = (None, st)"
      and il: "i < length (branches st)"
  proof -
    from reach_inv[OF r] have inv: "slots_indexed st" "sizes_in_unit st" "populated_from i st"
      by auto
    from inv(3) il have "branches st ! i \<noteq> None" unfolding populated_from_nth by simp
    moreover from inv_step[OF inv il, of zs ps "fst (activate_slot zs ps i st)"
        "snd (activate_slot zs ps i st)"]
    have "fst (activate_slot zs ps i st) \<noteq> Some AttributeError"
      "fst (activate_slot zs ps i st) \<noteq> Some IndexError" by auto
    ultimately show ?thesis by simp
  qed
  have C: "fst (generate_tree_capped cap zs p a ps st0) = None" if "shipped_run zs p ps"
  proof -
    from that have ps: "ps = presets" by (simp add: shipped_run_def)
    have "fst (activate_slot zs ps k st') = None" if "k < length (branches st')"
      unfolding ps by (rule activate_slot_no_error[OF k[unfolded ps] that presets_safe])
    with d show ?thesis by auto
  qed
  have D: "fst (activate_slot zs ps i st) = None \<or>
         length (branches st) \<le> i \<and> activate_slot zs ps i st = (Some IndexError, st)"
    if f: "shipped_run zs p ps"
      and r: "activate_in_order zs ps [0..<i] (Tree_init zs ps p a st0) = (None, st)"
  proof (cases "i < length (branches st)")
    case True
    from f have ps: "ps = presets" by (simp add: shipped_run_def)
    from reach_inv[OF r] have inv: "slots_indexed st" "sizes_in_unit st" "populated_from i st"
      by auto
    have "fst (activate_slot zs ps i st) = None"
      unfolding ps by (rule activate_slot_no_error[OF inv[unfolded ps] True presets_safe])
    then show ?thesis by simp
  next
    case False
    then show ?thesis by (simp add: activate_slot_out_of_range)
  qed
  from A B C D show ?thesis by blast
qed

theorem dead_slot_never_activated_witness:
  "activate_in_order zeros presets [0..<0] (Tree_init zeros presets (0, 0) 0 blank) = (None, sprout) \<and>
   0 < length (branches sprout) \<and> branches sprout ! 0 \<noteq> None \<and>
   shipped_run zeros (0, 0) presets \<and>
   fst (generate_tree_capped 5 zeros (0, 0) 0 presets blank) = None \<and>
   fst (activate_slot zeros presets 0 sprout) = None"
proof -
  have l: "0 < length (branches sprout)" by (simp add: sprout_def)
  note t = dead_slot_never_activated[of 5 zeros "(0, 0)" 0 presets blank 0 sprout]
  from t in_order_sprout_0 l have "branches sprout ! 0 \<noteq> None" by blast
  moreover from t shipped_run_zeros
  have "fst (generate_tree_capped 5 zeros (0, 0) 0 presets blank) = None"
    by blast
  moreover have "fst (activate_slot zeros presets 0 sprout) = None"
    by (simp add: activate_slot_sprout)
  ultimately show ?thesis using shipped_run_zeros l in_order_sprout_0 by simp
qed

section \<open>Determinism relative to the stream of variates (C9)\<close>

text \<open>C9. Take two runs of \<^verbatim>\<open>generate_tree\<close> with the same origin, direction, preset and
  cap, in two worlds whose generators deliver the same sequence of variates from where
  each run starts. Then the two runs have the same outcome, append the same sequence of
  lines (end points, colours, widths) to their surfaces, whatever was drawn before, and
  take the same number of variates. Every call of \<^verbatim>\<open>random.gauss\<close> reads the next variate
  of the one sequence and advances it by one.\<close>

theorem generate_tree_determined_by_draws:
  assumes "\<forall>n. zs (gauss_calls st + n) = zs' (gauss_calls st' + n)"
  shows "fst (generate_tree_capped cap zs p a ps st) = fst (generate_tree_capped cap zs' p a ps st') \<and>
    (\<exists>ls. surface (snd (generate_tree_capped cap zs p a ps st)) = surface st @ ls \<and>
          surface (snd (generate_tree_capped cap zs' p a ps st')) = surface st' @ ls) \<and>
    (\<exists>m. gauss_calls (snd (generate_tree_capped cap zs p a ps st)) = gauss_calls st + m \<and>
         gauss_calls (snd (generate_tree_capped cap zs' p a ps st')) = gauss_calls st' + m) \<and>
    fst (gauss zs mu sigma st) = mu + zs (gauss_calls st) * sigma \<and>
    gauss_calls (snd (gauss zs mu sigma st)) = gauss_calls st + 1"
proof -
  have b: "branches (Tree_init zs ps p a st) = branches (Tree_init zs' ps p a st')"
    using assms[rule_format, of 0] by (simp add: Tree_init_fields)
  have z: "\<forall>n. zs (gauss_calls (Tree_init zs ps p a st) + n)
       = zs' (gauss_calls (Tree_init zs' ps p a st') + n)"
  proof
    fix n
    from assms have "zs (gauss_calls st + Suc n) = zs' (gauss_calls st' + Suc n)" by blast
    then show "zs (gauss_calls (Tree_init zs ps p a st) + n)
       = zs' (gauss_calls (Tree_init zs' ps p a st') + n)"
      by (simp add: Tree_init_fields)
  qed
  from drive_sim[OF b z, of ps cap 0] obtain ls m where
    r: "fst (generate_tree_capped cap zs p a ps st) = fst (generate_tree_capped cap zs' p a ps st')"
      "surface (snd (generate_tree_capped cap zs p a ps st)) = surface st @ ls"
      "surface (snd (generate_tree_capped cap zs' p a ps st')) = surface st' @ ls"
      "gauss_calls (snd (generate_tree_capped cap zs p a ps st)) = gauss_calls st + Suc m"
      "gauss_calls (snd (generate_tree_capped cap zs' p a ps st')) = gauss_calls st' + Suc m"
    unfolding generate_tree_capped_def by (auto simp: Tree_init_fields)
  have "fst (gauss zs mu sigma st) = mu + zs (gauss_calls st) * sigma"
    "gauss_calls (snd (gauss zs mu sigma st)) = gauss_calls st + 1"
    by (simp_all add: gauss_def)
  with r show ?thesis by blast
qed

text \<open>A run in the blank world under \<open>zeros\<close> and a run in the world \<open>used\<close> under
  \<open>late_zeros\<close> draw the same line.\<close>

theorem generate_tree_determined_by_draws_witness:
  "(\<forall>n. zeros (gauss_calls blank + n) = late_zeros (gauss_calls used + n)) \<and>
   fst (generate_tree_capped 1 zeros (0, 0) 0 presets blank) = None \<and>
   fst (generate_tree_capped 1 late_zeros (0, 0) 0 presets used) = None \<and>
   surface (snd (generate_tree_capped 1 zeros (0, 0) 0 presets blank)) =
     surface blank @ surface forked \<and>
   surface (snd (generate_tree_capped 1 late_zeros (0, 0) 0 presets used)) =
     surface used @ surface forked"
proof -
  have h: "\<forall>n. zeros (gauss_calls blank + n) = late_zeros (gauss_calls used + n)"
    by (simp add: zeros_def late_zeros_def blank_def used_def)
  note t = generate_tree_determined_by_draws[OF h, of 1 "(0, 0)" 0 presets]
  have "surface blank = []" by (simp add: blank_def)
  with h t show ?thesis unfolding run_zeros_1 run_late_zeros_1 by simp
qed

end
